theory Spec2Isabelle
  imports Complex_Main "HOL-Library.Multiset" "HOL-Library.Char_ord" "HOL-Library.List_Lexorder"
begin

section \<open>Python values and errors\<close>

text \<open>
  The rows fetched from the database are Python dictionaries whose cells are \<open>None\<close>,
  numbers or strings. Numbers (\<open>int\<close> and \<open>float\<close>) are modelled as reals: comparison
  and truthiness of finite floats are exact, NaN and infinities are outside the model.
\<close>

datatype pyval = PNone | PNum real | PStr string

datatype error = TypeError | IndexError

text \<open>Truthiness, as used by \<open>and\<close>, \<open>or\<close> and \<open>if\<close>.\<close>

fun py_truthy :: "pyval \<Rightarrow> bool" where
  "py_truthy PNone = False"
| "py_truthy (PNum x) = (x \<noteq> 0)"
| "py_truthy (PStr s) = (s \<noteq> [])"

text \<open>\<open>a or b\<close>\<close>

definition py_or :: "pyval \<Rightarrow> pyval \<Rightarrow> pyval" where
  "py_or a b = (if py_truthy a then a else b)"

text \<open>\<open>v >= m\<close> for a float \<open>m\<close>: only numbers are comparable with a float.\<close>

fun py_ge_num :: "pyval \<Rightarrow> real \<Rightarrow> error + bool" where
  "py_ge_num (PNum x) m = Inr (m \<le> x)"
| "py_ge_num PNone m = Inl TypeError"
| "py_ge_num (PStr s) m = Inl TypeError"

fun is_number :: "pyval \<Rightarrow> bool" where
  "is_number (PNum x) = True"
| "is_number v = False"

fun is_string :: "pyval \<Rightarrow> bool" where
  "is_string (PStr s) = True"
| "is_string v = False"

fun the_num :: "pyval \<Rightarrow> real" where
  "the_num (PNum x) = x"
| "the_num v = 0"

fun the_str :: "pyval \<Rightarrow> string" where
  "the_str (PStr s) = s"
| "the_str v = []"

section \<open>Result rows\<close>

text \<open>
  One row of the search query, after \<open>dict(zip(columns, row))\<close>: all fourteen keys are
  present, so a row is a record and reading a key cannot fail.
\<close>

record result =
  video_id :: pyval
  title :: pyval
  description :: pyval
  published_at :: pyval
  duration :: pyval
  view_count :: pyval
  like_count :: pyval
  comment_count :: pyval
  favorite_count :: pyval
  transcription_language :: pyval
  segment_start :: pyval
  segment_end :: pyval
  segment_text :: pyval
  similarity :: pyval

section \<open>The threshold re-check of \<open>search_similar_segments\<close>\<close>

text \<open>
  \<open>if result_dict['similarity'] and result_dict['similarity'] >= min_similarity\<close>:
  the conjunction short-circuits on a falsy similarity.
\<close>

definition passes_threshold :: "real \<Rightarrow> result \<Rightarrow> error + bool" where
  "passes_threshold min_similarity r =
     (if py_truthy (similarity r) then py_ge_num (similarity r) min_similarity else Inr False)"

text \<open>
  The loop over the fetched rows, appending to \<open>results_list\<close>. An exception leaves the
  loop at once; the handler of \<open>search_similar_segments\<close> logs it and raises it again.
\<close>

fun recheck_loop :: "real \<Rightarrow> result list \<Rightarrow> result list \<Rightarrow> error + result list" where
  "recheck_loop min_similarity results_list [] = Inr results_list"
| "recheck_loop min_similarity results_list (r # rows) =
     (case passes_threshold min_similarity r of
        Inl e \<Rightarrow> Inl e
      | Inr ok \<Rightarrow> recheck_loop min_similarity
                   (if ok then results_list @ [r] else results_list) rows)"

text \<open>
  \<open>search_similar_segments\<close> from the point where the rows have been fetched; the
  database answer is the parameter \<open>rows\<close>.
\<close>

definition search_similar_segments :: "result list \<Rightarrow> real \<Rightarrow> error + result list" where
  "search_similar_segments rows min_similarity = recheck_loop min_similarity [] rows"

section \<open>Sorting\<close>

text \<open>
  \<open>list.sort\<close> and \<open>sorted\<close> with \<open>reverse=True\<close> are stable: elements with equal keys
  keep their relative order. Insertion from the right gives exactly that.
\<close>

fun insert_desc :: "('a \<Rightarrow> 'k::linorder) \<Rightarrow> 'a \<Rightarrow> 'a list \<Rightarrow> 'a list" where
  "insert_desc key x [] = [x]"
| "insert_desc key x (y # ys) =
     (if key y \<le> key x then x # y # ys else y # insert_desc key x ys)"

fun sort_desc :: "('a \<Rightarrow> 'k::linorder) \<Rightarrow> 'a list \<Rightarrow> 'a list" where
  "sort_desc key [] = []"
| "sort_desc key (x # xs) = insert_desc key x (sort_desc key xs)"

text \<open>
  The keys are computed first, one per element and in order; a key function that raises
  ends the call. Then the keys are compared with \<open><\<close>. Numbers compare with numbers and
  strings with strings; any other pair raises \<open>TypeError\<close>. A list of fewer than two
  elements is returned without any comparison; on a longer list every comparison sort
  compares some pair of different kinds as soon as both kinds occur.
\<close>

fun compute_keys :: "('a \<Rightarrow> error + pyval) \<Rightarrow> 'a list \<Rightarrow> error + ('a \<times> pyval) list" where
  "compute_keys key [] = Inr []"
| "compute_keys key (x # xs) =
     (case key x of
        Inl e \<Rightarrow> Inl e
      | Inr k \<Rightarrow> (case compute_keys key xs of
                    Inl e \<Rightarrow> Inl e
                  | Inr ks \<Rightarrow> Inr ((x, k) # ks)))"

definition sort_keyed :: "('a \<times> pyval) list \<Rightarrow> error + 'a list" where
  "sort_keyed kxs =
     (if length kxs < 2 then Inr (map fst kxs)
      else if list_all (\<lambda>p. is_number (snd p)) kxs
        then Inr (map fst (sort_desc (\<lambda>p. the_num (snd p)) kxs))
      else if list_all (\<lambda>p. is_string (snd p)) kxs
        then Inr (map fst (sort_desc (\<lambda>p. the_str (snd p)) kxs))
      else Inl TypeError)"

definition py_sorted :: "('a \<Rightarrow> error + pyval) \<Rightarrow> 'a list \<Rightarrow> error + 'a list" where
  "py_sorted key xs =
     (case compute_keys key xs of Inl e \<Rightarrow> Inl e | Inr kxs \<Rightarrow> sort_keyed kxs)"

section \<open>Grouping by video\<close>

text \<open>
  A Python dictionary keeps its keys in insertion order, so \<open>video_groups\<close> is an
  association list with distinct keys. The \<open>video_info\<close> dictionary is an association
  list from key names to values.
\<close>

record video_group =
  video_info :: "(string \<times> pyval) list"
  segments :: "result list"

type_synonym video_groups = "(pyval \<times> video_group) list"

definition new_group :: "result \<Rightarrow> video_group" where
  "new_group r =
     \<lparr>video_info =
        [(''video_id'', video_id r),
         (''title'', title r),
         (''description'', description r),
         (''published_at'', published_at r),
         (''duration'', duration r),
         (''view_count'', view_count r),
         (''like_count'', like_count r),
         (''comment_count'', comment_count r),
         (''favorite_count'', favorite_count r)],
      segments = []\<rparr>"

text \<open>\<open>video_groups[video_id]['segments'].append(result)\<close>\<close>

definition append_segment :: "pyval \<Rightarrow> result \<Rightarrow> video_groups \<Rightarrow> video_groups" where
  "append_segment vid r groups =
     map (\<lambda>(k, g). if k = vid then (k, g\<lparr>segments := segments g @ [r]\<rparr>) else (k, g)) groups"

text \<open>
  One turn of the first loop. The key is inserted before it is read, so the read cannot
  raise \<open>KeyError\<close>.
\<close>

definition add_result :: "video_groups \<Rightarrow> result \<Rightarrow> video_groups" where
  "add_result groups r =
     (let vid = video_id r;
          groups1 = (if vid \<in> set (map fst groups) then groups
                     else groups @ [(vid, new_group r)])
      in append_segment vid r groups1)"

definition collect_groups :: "result list \<Rightarrow> video_groups" where
  "collect_groups results = foldl add_result [] results"

text \<open>The sort key \<open>x['similarity'] or 0\<close>.\<close>

definition similarity_key :: "result \<Rightarrow> pyval" where
  "similarity_key x = py_or (similarity x) (PNum 0)"

text \<open>The second loop: each group's segments are sorted in turn.\<close>

fun sort_segments :: "video_groups \<Rightarrow> error + video_groups" where
  "sort_segments [] = Inr []"
| "sort_segments ((k, g) # groups) =
     (case py_sorted (\<lambda>x. Inr (similarity_key x)) (segments g) of
        Inl e \<Rightarrow> Inl e
      | Inr segs \<Rightarrow> (case sort_segments groups of
                      Inl e \<Rightarrow> Inl e
                    | Inr groups' \<Rightarrow> Inr ((k, g\<lparr>segments := segs\<rparr>) # groups')))"

text \<open>
  The key of the sort of the videos, \<open>x[1]['segments'][0]['similarity'] or 0\<close>: indexing
  an empty list raises \<open>IndexError\<close>.
\<close>

definition best_key :: "pyval \<times> video_group \<Rightarrow> error + pyval" where
  "best_key x =
     (case segments (snd x) of
        [] \<Rightarrow> Inl IndexError
      | s # rest \<Rightarrow> Inr (similarity_key s))"

text \<open>
  \<open>dict(sorted_videos)\<close>: a later pair with a key already present replaces the value and
  keeps the position of the first.
\<close>

definition dict_set :: "('k \<times> 'v) list \<Rightarrow> 'k \<times> 'v \<Rightarrow> ('k \<times> 'v) list" where
  "dict_set d kv =
     (if fst kv \<in> set (map fst d)
      then map (\<lambda>(k, v). if k = fst kv then (k, snd kv) else (k, v)) d
      else d @ [kv])"

definition dict_of_items :: "('k \<times> 'v) list \<Rightarrow> ('k \<times> 'v) list" where
  "dict_of_items items = foldl dict_set [] items"

definition group_results_by_video :: "result list \<Rightarrow> error + video_groups" where
  "group_results_by_video results =
     (case sort_segments (collect_groups results) of
        Inl e \<Rightarrow> Inl e
      | Inr video_groups \<Rightarrow>
          (case py_sorted best_key video_groups of
             Inl e \<Rightarrow> Inl e
           | Inr sorted_videos \<Rightarrow> Inr (dict_of_items sorted_videos)))"

section \<open>The renderers' reads of a group\<close>

text \<open>
  Both renderers take \<open>best_segment = segments[0]\<close> of every group. The dashboard reads
  the language with \<open>video_info.get("transcription_language") or "Unknown"\<close>.
\<close>

definition best_segment :: "video_group \<Rightarrow> error + result" where
  "best_segment g = (case segments g of [] \<Rightarrow> Inl IndexError | s # rest \<Rightarrow> Inr s)"

definition dict_get :: "(string \<times> pyval) list \<Rightarrow> string \<Rightarrow> pyval" where
  "dict_get d k = (case map_of d k of None \<Rightarrow> PNone | Some v \<Rightarrow> v)"

definition shown_language :: "video_group \<Rightarrow> pyval" where
  "shown_language g = py_or (dict_get (video_info g) ''transcription_language'') (PStr ''Unknown'')"

section \<open>Formatting helpers\<close>

text \<open>\<open>str(n)\<close> for an integer, in decimal.\<close>

definition digit_char :: "nat \<Rightarrow> char" where
  "digit_char d = char_of (48 + d)"

fun str_nat :: "nat \<Rightarrow> string" where
  "str_nat n = (if n < 10 then [digit_char n] else str_nat (n div 10) @ [digit_char (n mod 10)])"

declare str_nat.simps [simp del]

definition str_int :: "int \<Rightarrow> string" where
  "str_int i = (if i < 0 then CHR ''-'' # str_nat (nat (- i)) else str_nat (nat i))"




text \<open>
  \<open>format_number\<close> divides two integers with \<open>/\<close>, which gives a float: the double
  nearest to the exact quotient, ties going to the even significand, or \<open>OverflowError\<close>
  when that double would be \<open>2 ^ 1024\<close> or more. The functions below compute this on
  integers, for a quotient of at least 1, which is all \<open>format_number\<close> asks for.
\<close>

datatype arith_error = OverflowError

text \<open>The binary exponent: \<open>ilog2 m\<close> is the \<open>e\<close> with \<open>2 ^ e \<le> m < 2 ^ (e + 1)\<close>.\<close>

fun ilog2 :: "nat \<Rightarrow> nat" where
  "ilog2 m = (if m < 2 then 0 else Suc (ilog2 (m div 2)))"

declare ilog2.simps [simp del]

text \<open>The integer nearest to \<open>a / b\<close> for \<open>b > 0\<close>, a tie going to the even one.\<close>

definition round_half_even :: "int \<Rightarrow> int \<Rightarrow> int" where
  "round_half_even a b =
     (let f = a div b; r = a mod b
      in if 2 * r < b then f
         else if b < 2 * r then f + 1
         else if even f then f else f + 1)"

text \<open>
  \<open>n / d\<close> for \<open>n \<ge> d > 0\<close>: with \<open>e\<close> the exponent of the quotient, the significand is
  the quotient scaled by \<open>2 ^ (52 - e)\<close> and rounded, and the double is the significand
  scaled back. The result is the exact value of that double.
\<close>

definition true_divide :: "int \<Rightarrow> int \<Rightarrow> arith_error + real" where
  "true_divide n d =
     (let e = ilog2 (nat (n div d));
          m = (if e \<le> 52 then round_half_even (n * 2 ^ (52 - e)) d
               else round_half_even n (d * 2 ^ (e - 52)))
      in if 1023 < e \<or> (e = 1023 \<and> m = 2 ^ 53) then Inl OverflowError
         else if e \<le> 52 then Inr (of_int m / 2 ^ (52 - e))
         else Inr (of_int m * 2 ^ (e - 52)))"

text \<open>
  The format \<open>{x:.1f}\<close> of a double \<open>x \<ge> 0\<close>: its exact value rounded to a whole number
  of tenths, a tie going to the even one, printed with one decimal.
\<close>

definition round_tenths :: "real \<Rightarrow> int" where
  "round_tenths x =
     (let f = \<lfloor>10 * x\<rfloor>; r = 10 * x - of_int f
      in if r < 1 / 2 then f
         else if 1 / 2 < r then f + 1
         else if even f then f else f + 1)"

definition tenths_string :: "int \<Rightarrow> string" where
  "tenths_string t = str_int (t div 10) @ ''.'' @ [digit_char (nat (t mod 10))]"

definition fmt_1f :: "real \<Rightarrow> string" where
  "fmt_1f x = tenths_string (round_tenths x)"

text \<open>The callers pass \<open>None\<close> or an integer count.\<close>

definition format_number :: "int option \<Rightarrow> arith_error + string" where
  "format_number num =
     (case num of
        None \<Rightarrow> Inr ''0''
      | Some n \<Rightarrow>
          if n \<ge> 1000000
          then (case true_divide n 1000000 of
                  Inl e \<Rightarrow> Inl e
                | Inr x \<Rightarrow> Inr (fmt_1f x @ ''M''))
          else if n \<ge> 1000
          then (case true_divide n 1000 of
                  Inl e \<Rightarrow> Inl e
                | Inr x \<Rightarrow> Inr (fmt_1f x @ ''K''))
          else Inr (str_int n))"

section \<open>Notions used in the statements\<close>

text \<open>The distinct elements of a list, in the order of their first occurrence.\<close>

fun first_seen :: "'a list \<Rightarrow> 'a list" where
  "first_seen [] = []"
| "first_seen (x # xs) = x # filter (\<lambda>y. y \<noteq> x) (first_seen xs)"

text \<open>The matches of one video, in input order, and the group the first loop builds of them.\<close>

definition matches_of :: "pyval \<Rightarrow> result list \<Rightarrow> result list" where
  "matches_of v rs = filter (\<lambda>r. video_id r = v) rs"

definition group_of :: "result list \<Rightarrow> pyval \<Rightarrow> video_group" where
  "group_of rs v =
     \<lparr>video_info = (case matches_of v rs of [] \<Rightarrow> [] | r # rest \<Rightarrow> video_info (new_group r)),
      segments = matches_of v rs\<rparr>"

text \<open>The similarity of a match, null counted as 0, as the specification words it.\<close>

definition similarity_or_zero :: "result \<Rightarrow> real" where
  "similarity_or_zero r = (case similarity r of PNum x \<Rightarrow> x | PNone \<Rightarrow> 0 | PStr s \<Rightarrow> 0)"

definition top_similarity :: "video_group \<Rightarrow> real" where
  "top_similarity g = (case segments g of [] \<Rightarrow> 0 | s # rest \<Rightarrow> similarity_or_zero s)"

text \<open>Every similarity is \<open>None\<close> or a number, as the database column gives it.\<close>

definition numeric_similarities :: "result list \<Rightarrow> bool" where
  "numeric_similarities rs = list_all (\<lambda>r. \<not> is_string (similarity r)) rs"

text \<open>The segments of all groups, in group order.\<close>

definition flatten :: "video_groups \<Rightarrow> result list" where
  "flatten groups = concat (map (\<lambda>kg. segments (snd kg)) groups)"

text \<open>Matches of the same video carry the same video-level cells.\<close>

definition same_metadata :: "result list \<Rightarrow> bool" where
  "same_metadata rs =
     list_all (\<lambda>r. list_all (\<lambda>r'. video_id r \<noteq> video_id r' \<or>
                                  video_info (new_group r) = video_info (new_group r')) rs) rs"

text \<open>
  A group and its image under the second loop: same key, same \<open>video_info\<close>, segments
  sorted.
\<close>

definition seg_sorted :: "pyval \<times> video_group \<Rightarrow> pyval \<times> video_group \<Rightarrow> bool" where
  "seg_sorted kg kg' \<longleftrightarrow>
     fst kg' = fst kg \<and> video_info (snd kg') = video_info (snd kg) \<and>
     py_sorted (\<lambda>x. Inr (similarity_key x)) (segments (snd kg)) = Inr (segments (snd kg'))"

text \<open>Groups that hold, each, a non-empty list of matches of its own key.\<close>

definition own_segments :: "video_groups \<Rightarrow> bool" where
  "own_segments gs \<longleftrightarrow>
     (\<forall>kg\<in>set gs. segments (snd kg) \<noteq> [] \<and> (\<forall>r\<in>set (segments (snd kg)). video_id r = fst kg))"

section \<open>Concrete rows\<close>

text \<open>A row with the given video id, title, language and similarity; the other cells are empty.\<close>

definition row :: "pyval \<Rightarrow> pyval \<Rightarrow> pyval \<Rightarrow> pyval \<Rightarrow> result" where
  "row vid ttl lang sim =
     \<lparr>video_id = vid, title = ttl, description = PNone, published_at = PNone,
      duration = PNone, view_count = PNone, like_count = PNone, comment_count = PNone,
      favorite_count = PNone, transcription_language = lang, segment_start = PNone,
      segment_end = PNone, segment_text = PNone, similarity = sim\<rparr>"

text \<open>Four matches of two videos, one of them without a similarity.\<close>

definition example_rows :: "result list" where
  "example_rows =
     [row (PStr ''v1'') (PStr ''First talk'') (PStr ''en'') (PNum (6 / 10)),
      row (PStr ''v2'') (PStr ''Second talk'') (PStr ''en'') (PNum (8 / 10)),
      row (PStr ''v1'') (PStr ''First talk'') (PStr ''en'') PNone,
      row (PStr ''v2'') (PStr ''Second talk'') (PStr ''en'') (PNum (9 / 10))]"

text \<open>Two matches of one video that disagree on the title.\<close>

definition conflicting_rows :: "result list" where
  "conflicting_rows =
     [row (PStr ''v1'') (PStr ''A'') PNone (PNum (1 / 2)),
      row (PStr ''v1'') (PStr ''B'') PNone (PNum (9 / 10))]"

definition conflicting_groups :: video_groups where
  "conflicting_groups =
     [(PStr ''v1'',
       \<lparr>video_info =
          [(''video_id'', PStr ''v1''), (''title'', PStr ''A''), (''description'', PNone),
           (''published_at'', PNone), (''duration'', PNone), (''view_count'', PNone),
           (''like_count'', PNone), (''comment_count'', PNone), (''favorite_count'', PNone)],
        segments =
          [row (PStr ''v1'') (PStr ''B'') PNone (PNum (9 / 10)),
           row (PStr ''v1'') (PStr ''A'') PNone (PNum (1 / 2))]\<rparr>)]"

text \<open>Two matches of one video, the first in English, and the group made of them.\<close>

definition two_language_rows :: "result list" where
  "two_language_rows =
     [row (PStr ''v1'') (PStr ''A'') (PStr ''en'') (PNum (1 / 2)),
      row (PStr ''v1'') (PStr ''B'') (PStr ''fr'') (PNum (9 / 10))]"

definition two_language_group :: video_group where
  "two_language_group =
     \<lparr>video_info =
        [(''video_id'', PStr ''v1''), (''title'', PStr ''A''), (''description'', PNone),
         (''published_at'', PNone), (''duration'', PNone), (''view_count'', PNone),
         (''like_count'', PNone), (''comment_count'', PNone), (''favorite_count'', PNone)],
      segments =
        [row (PStr ''v1'') (PStr ''B'') (PStr ''fr'') (PNum (9 / 10)),
         row (PStr ''v1'') (PStr ''A'') (PStr ''en'') (PNum (1 / 2))]\<rparr>"

text \<open>One match in English, and the group made of it.\<close>

definition single_row :: result where
  "single_row = row (PStr ''v1'') (PStr ''Talk'') (PStr ''en'') (PNum (9 / 10))"

definition single_group :: video_group where
  "single_group =
     \<lparr>video_info =
        [(''video_id'', PStr ''v1''), (''title'', PStr ''Talk''), (''description'', PNone),
         (''published_at'', PNone), (''duration'', PNone), (''view_count'', PNone),
         (''like_count'', PNone), (''comment_count'', PNone), (''favorite_count'', PNone)],
      segments = [single_row]\<rparr>"

section \<open>Properties of the threshold re-check\<close>

lemma recheck_loop_numeric:
  "list_all (\<lambda>r. \<not> is_string (similarity r)) rows \<Longrightarrow>
   recheck_loop m acc rows =
     Inr (acc @ filter (\<lambda>r. py_truthy (similarity r) \<and> m \<le> the_num (similarity r)) rows)"
proof (induction rows arbitrary: acc)
  case Nil
  then show ?case by simp
next
  case (Cons r rows)
  then show ?case
    by (cases "similarity r") (simp_all add: passes_threshold_def)
qed

lemma recheck_loop_malformed:
  "\<exists>r\<in>set rows. is_string (similarity r) \<and> py_truthy (similarity r) \<Longrightarrow>
   recheck_loop m acc rows = Inl TypeError"
proof (induction rows arbitrary: acc)
  case Nil
  then show ?case by simp
next
  case (Cons r rows)
  show ?case
  proof (cases "similarity r")
    case PNone
    with Cons show ?thesis by (auto simp: passes_threshold_def)
  next
    case (PNum x)
    with Cons show ?thesis by (auto simp: passes_threshold_def)
  next
    case (PStr s)
    with Cons show ?thesis by (auto simp: passes_threshold_def)
  qed
qed

text \<open>
  On rows whose similarity is \<open>None\<close> or a number the re-check returns, in order, the rows
  with a non-zero similarity that reaches the threshold.
\<close>

lemma search_similar_segments_numeric:
  "list_all (\<lambda>r. \<not> is_string (similarity r)) rows \<Longrightarrow>
   search_similar_segments rows m =
     Inr (filter (\<lambda>r. py_truthy (similarity r) \<and> m \<le> the_num (similarity r)) rows)"
  by (simp add: search_similar_segments_def recheck_loop_numeric)

text \<open>
  Claim C1. The re-check should keep every candidate whose similarity is present and at
  least \<open>min_similarity\<close>. A candidate with similarity \<open>0.0\<close> is present and reaches the
  threshold \<open>0.0\<close>, but \<open>0.0\<close> is falsy and the candidate is dropped.
\<close>

theorem C1_zero_similarity_dropped:
  "similarity (row (PStr ''v1'') PNone PNone (PNum 0)) = PNum 0 \<and>
   search_similar_segments [row (PStr ''v1'') PNone PNone (PNum 0)] 0 = Inr []"
  by (simp add: search_similar_segments_def passes_threshold_def row_def)

text \<open>
  Claim C9, as stated: a candidate with a non-numeric similarity is excluded and the
  re-check completes. It does not: the comparison of a string with the threshold raises
  \<open>TypeError\<close> and the query is lost, the accepted candidate before it included.
\<close>

theorem C9_counterexample:
  "search_similar_segments
     [row (PStr ''v1'') PNone PNone (PNum (9 / 10)),
      row (PStr ''v2'') PNone PNone (PStr ''abc'')] (2 / 5) = Inl TypeError"
  by (simp add: search_similar_segments_def passes_threshold_def row_def)

text \<open>
  Claim C9, amended: whenever some candidate carries a non-empty string as its similarity,
  the re-check raises \<open>TypeError\<close>, whatever the other candidates and the threshold are;
  no record is accepted and nothing else is signalled.
\<close>

theorem C9_malformed_similarity_raises:
  "r \<in> set rows \<Longrightarrow> is_string (similarity r) \<Longrightarrow> py_truthy (similarity r) \<Longrightarrow>
   search_similar_segments rows m = Inl TypeError"
  unfolding search_similar_segments_def
  by (rule recheck_loop_malformed) blast

theorem C9_malformed_similarity_raises_witness:
  "search_similar_segments
     [row (PStr ''v1'') PNone PNone (PStr ''0.8''),
      row (PStr ''v1'') PNone PNone (PNum (1 / 2))] (3 / 10) = Inl TypeError"
  by (rule C9_malformed_similarity_raises
        [of "row (PStr ''v1'') PNone PNone (PStr ''0.8'')"])
     (simp_all add: row_def)

section \<open>Properties of the formatting helpers\<close>

lemma digit_char_simps:
  "digit_char 0 = CHR ''0''" "digit_char (Suc 0) = CHR ''1''" "digit_char 1 = CHR ''1''"
  "digit_char 2 = CHR ''2''" "digit_char 3 = CHR ''3''" "digit_char 4 = CHR ''4''"
  "digit_char 5 = CHR ''5''" "digit_char 6 = CHR ''6''" "digit_char 7 = CHR ''7''"
  "digit_char 8 = CHR ''8''" "digit_char 9 = CHR ''9''"
  by (code_simp)+

lemmas fn_eval = format_number_def true_divide_def round_half_even_def fmt_1f_def round_tenths_def
  tenths_string_def str_int_def str_nat.simps digit_char_simps Let_def












lemma ilog2_bounds: "0 < m \<Longrightarrow> 2 ^ ilog2 m \<le> m \<and> m < 2 ^ Suc (ilog2 m)"
proof (induction m rule: ilog2.induct)
  case (1 m)
  show ?case
  proof (cases "m < 2")
    case True
    with "1.prems" have "m = 1" by simp
    then show ?thesis by (simp add: ilog2.simps)
  next
    case False
    then have pos: "0 < m div 2" by simp
    from "1.IH" [OF False pos]
    have lo: "2 ^ ilog2 (m div 2) \<le> m div 2" and hi: "m div 2 < 2 ^ Suc (ilog2 (m div 2))"
      by simp_all
    from False have e: "ilog2 m = Suc (ilog2 (m div 2))" by (simp add: ilog2.simps [of m])
    from lo have "2 * 2 ^ ilog2 (m div 2) \<le> m" by linarith
    moreover from hi have "m < 2 * 2 ^ Suc (ilog2 (m div 2))" by linarith
    ultimately show ?thesis by (simp add: e)
  qed
qed

lemma round_half_even_near:
  assumes "0 < b"
  shows "\<bar>real_of_int (round_half_even a b) - of_int a / of_int b\<bar> \<le> 1 / 2"
proof -
  define f where "f = a div b"
  define r where "r = a mod b"
  have r0: "0 \<le> r" and rb: "r < b" using assms by (simp_all add: r_def)
  have a: "a = b * f + r" by (simp add: f_def r_def)
  have q: "real_of_int a / of_int b = of_int f + of_int r / of_int b"
    using assms by (simp add: a field_simps)
  have v: "round_half_even a b = f \<and> 2 * r \<le> b \<or> round_half_even a b = f + 1 \<and> b \<le> 2 * r"
    unfolding round_half_even_def Let_def f_def [symmetric] r_def [symmetric] by auto
  have rq0: "0 \<le> real_of_int r / of_int b" using r0 assms by simp
  have rq1: "real_of_int r / of_int b < 1" using rb assms by simp
  from v show ?thesis
  proof
    assume c: "round_half_even a b = f \<and> 2 * r \<le> b"
    then have "2 * real_of_int r \<le> of_int b" by linarith
    then have "real_of_int r / of_int b \<le> 1 / 2" using assms by (simp add: field_simps)
    with c rq0 show ?thesis by (simp add: q)
  next
    assume c: "round_half_even a b = f + 1 \<and> b \<le> 2 * r"
    then have "of_int b \<le> 2 * real_of_int r" by linarith
    then have "1 / 2 \<le> real_of_int r / of_int b" using assms by (simp add: field_simps)
    with c rq1 show ?thesis by (simp add: q)
  qed
qed

lemma round_tenths_near: "\<bar>real_of_int (round_tenths x) - 10 * x\<bar> \<le> 1 / 2"
proof -
  define f where "f = \<lfloor>10 * x\<rfloor>"
  define r where "r = 10 * x - of_int f"
  have r0: "0 \<le> r" unfolding r_def f_def using of_int_floor_le [of "10 * x"] by simp
  have r1: "r < 1" unfolding r_def f_def using floor_correct [of "10 * x"] by linarith
  have x: "10 * x = of_int f + r" unfolding r_def by simp
  have "round_tenths x = f \<and> r \<le> 1 / 2 \<or> round_tenths x = f + 1 \<and> 1 / 2 \<le> r"
    unfolding round_tenths_def Let_def f_def [symmetric] r_def [symmetric] by auto
  then show ?thesis using r0 r1 x by auto
qed

lemma true_divide_near:
  assumes d: "0 < d" and nd: "d \<le> n" and small: "n div d < 2 ^ Suc E" and E: "E \<le> 52"
  shows "\<exists>x. true_divide n d = Inr x \<and> \<bar>x - of_int n / of_int d\<bar> \<le> 2 ^ E / 2 ^ 53"
proof -
  define k where "k = nat (n div d)"
  define e where "e = ilog2 k"
  have k1: "0 < k" using d nd by (simp add: k_def pos_imp_zdiv_pos_iff)
  from ilog2_bounds [OF k1] have lo: "2 ^ e \<le> k" by (simp add: e_def)
  have "int k < 2 ^ Suc E" using small k1 by (simp add: k_def)
  then have "k < 2 ^ Suc E" by (metis of_nat_less_iff of_nat_numeral of_nat_power)
  with lo have p: "(2::nat) ^ e < 2 ^ Suc E" by linarith
  have one: "(1::nat) < 2" by simp
  from power_less_imp_less_exp [OF one p] have eE: "e \<le> E" by simp
  with E have e52: "e \<le> 52" by simp
  define s where "s = 52 - e"
  define m where "m = round_half_even (n * 2 ^ s) d"
  have td: "true_divide n d = Inr (of_int m / 2 ^ s)"
    using e52 by (simp add: true_divide_def Let_def k_def [symmetric] e_def [symmetric]
        s_def [symmetric] m_def [symmetric])
  have "\<bar>real_of_int m - of_int (n * 2 ^ s) / of_int d\<bar> \<le> 1 / 2"
    unfolding m_def by (rule round_half_even_near [OF d])
  then have A: "\<bar>real_of_int m - (of_int n / of_int d) * 2 ^ s\<bar> \<le> 1 / 2" by simp
  define q where "q = real_of_int n / of_int d"
  define P where "P = (2::real) ^ s"
  have P: "0 < P" by (simp add: P_def)
  have "real_of_int m / P - q = (real_of_int m - q * P) / P"
    using P by (simp add: field_simps)
  then have "\<bar>real_of_int m / P - q\<bar> = \<bar>real_of_int m - q * P\<bar> / P"
    using P by (simp only: abs_divide)
  also have "\<dots> \<le> (1 / 2) / P"
    using A P by (intro divide_right_mono) (simp_all add: q_def P_def)
  finally have "\<bar>real_of_int m / P - q\<bar> \<le> 1 / (2 * P)" by simp
  then have near: "\<bar>real_of_int m / 2 ^ s - of_int n / of_int d\<bar> \<le> 1 / (2 * 2 ^ s)"
    by (simp only: q_def P_def)
  have se: "Suc (s + e) = 53" using e52 by (simp add: s_def)
  have "(2::real) ^ Suc (s + e) = 2 * 2 ^ s * 2 ^ e" by (simp add: power_add)
  then have pw: "(2::real) ^ 53 = 2 * 2 ^ s * 2 ^ e" by (simp only: se)
  have "1 / (2 * 2 ^ s) = (2::real) ^ e / 2 ^ 53" unfolding pw by simp
  also have "\<dots> \<le> 2 ^ E / 2 ^ 53"
    using eE by (intro divide_right_mono power_increasing) simp_all
  finally have "1 / (2 * 2 ^ s) \<le> (2::real) ^ E / 2 ^ 53" .
  with near td show ?thesis by auto
qed

lemma nearest_tenth:
  assumes c: "0 < h" and d: "d = 20 * h" and nd: "d \<le> n"
    and small: "n div d < 2 ^ Suc E" and E: "E \<le> 52"
    and fine: "20 * real_of_int h * 2 ^ E < 2 ^ 53"
  shows "\<exists>x. true_divide n d = Inr x \<and>
             \<bar>real_of_int (round_tenths x) / 10 - of_int n / of_int d\<bar> \<le> 1 / 20"
proof -
  have dpos: "0 < d" using c d by simp
  from true_divide_near [OF dpos nd small E] obtain x where
    td: "true_divide n d = Inr x" and
    near: "\<bar>x - of_int n / of_int d\<bar> \<le> 2 ^ E / 2 ^ 53"
    by blast
  define t where "t = round_tenths x"
  have rt: "\<bar>real_of_int t - 10 * x\<bar> \<le> 1 / 2"
    unfolding t_def by (rule round_tenths_near)
  have hr: "0 < real_of_int h" using c by simp
  have q: "real_of_int n / of_int d = of_int n / (20 * of_int h)" by (simp add: d)
  have "(2::real) ^ E / 2 ^ 53 < 1 / (20 * real_of_int h)"
  proof -
    have "(20 * real_of_int h * 2 ^ E) / (20 * real_of_int h * 2 ^ 53) <
          2 ^ 53 / (20 * real_of_int h * 2 ^ 53)"
      using fine hr by (intro divide_strict_right_mono) simp_all
    then show ?thesis using hr by simp
  qed
  with near have e1: "\<bar>x - of_int n / (20 * of_int h)\<bar> < 1 / (20 * real_of_int h)"
    unfolding q by linarith
  have "\<bar>10 * x - of_int n / (2 * of_int h)\<bar> = 10 * \<bar>x - of_int n / (20 * of_int h)\<bar>"
    using hr by (simp add: abs_mult [symmetric] field_simps del: abs_mult)
  with e1 have e2: "\<bar>10 * x - of_int n / (2 * of_int h)\<bar> < 1 / (2 * real_of_int h)"
    using hr by (simp add: field_simps)
  from rt e2 have "\<bar>real_of_int t - of_int n / (2 * of_int h)\<bar> < 1 / 2 + 1 / (2 * real_of_int h)"
    by linarith
  then have "\<bar>real_of_int t - of_int n / (2 * of_int h)\<bar> * (2 * of_int h) <
      (1 / 2 + 1 / (2 * real_of_int h)) * (2 * of_int h)"
    using hr by (intro mult_strict_right_mono) simp_all
  moreover have "\<bar>real_of_int t - of_int n / (2 * of_int h)\<bar> * (2 * of_int h) =
      \<bar>real_of_int (2 * h * t - n)\<bar>"
  proof -
    have "\<bar>real_of_int t - of_int n / (2 * of_int h)\<bar> * (2 * of_int h) =
        \<bar>(real_of_int t - of_int n / (2 * of_int h)) * (2 * of_int h)\<bar>"
      using hr by (simp add: abs_mult)
    also have "(real_of_int t - of_int n / (2 * of_int h)) * (2 * of_int h) =
        real_of_int (2 * h * t - n)"
      using hr by (simp add: field_simps)
    finally show ?thesis .
  qed
  moreover have "(1 / 2 + 1 / (2 * real_of_int h)) * (2 * of_int h) = of_int (h + 1)"
    using hr by (simp add: field_simps)
  ultimately have "\<bar>real_of_int (2 * h * t - n)\<bar> < of_int (h + 1)" by simp
  then have "real_of_int \<bar>2 * h * t - n\<bar> < of_int (h + 1)" by simp
  then have "\<bar>2 * h * t - n\<bar> < h + 1" by (simp only: of_int_less_iff)
  then have "\<bar>2 * h * t - n\<bar> \<le> h" by simp
  then have "real_of_int \<bar>2 * h * t - n\<bar> \<le> of_int h" by (simp only: of_int_le_iff)
  then have b: "\<bar>real_of_int (2 * h * t - n)\<bar> \<le> of_int h" by simp
  have "real_of_int t / 10 - of_int n / of_int d = real_of_int (2 * h * t - n) / (20 * of_int h)"
    using hr by (simp add: d field_simps)
  then have "\<bar>real_of_int t / 10 - of_int n / of_int d\<bar> =
      \<bar>real_of_int (2 * h * t - n)\<bar> / (20 * of_int h)"
    using hr by (simp only: abs_divide)
  also have "\<dots> \<le> of_int h / (20 * of_int h)"
    using b hr by (intro divide_right_mono) simp_all
  also have "\<dots> = 1 / 20" using hr by simp
  finally have "\<bar>real_of_int t / 10 - of_int n / of_int d\<bar> \<le> 1 / 20" .
  with td show ?thesis unfolding t_def by blast
qed

lemma format_number_millions:
  assumes "1000000 \<le> n" "n < 17179869184000000"
  shows "\<exists>t. format_number (Some n) = Inr (tenths_string t @ ''M'') \<and>
             \<bar>real_of_int t / 10 - real_of_int n / 1000000\<bar> \<le> 1 / 20"
proof -
  from assms(2) have "n div 1000000 < 17179869184" by presburger
  then have s: "n div 1000000 < 2 ^ Suc 33" by simp
  have "\<exists>x. true_divide n 1000000 = Inr x \<and>
             \<bar>real_of_int (round_tenths x) / 10 - of_int n / of_int 1000000\<bar> \<le> 1 / 20"
    by (rule nearest_tenth [of 50000, OF _ _ assms(1) s]) simp_all
  with assms(1) show ?thesis
    by (auto simp: format_number_def fmt_1f_def)
qed

lemma format_number_thousands:
  assumes "1000 \<le> n" "n < 1000000"
  shows "\<exists>t. format_number (Some n) = Inr (tenths_string t @ ''K'') \<and>
             \<bar>real_of_int t / 10 - real_of_int n / 1000\<bar> \<le> 1 / 20"
proof -
  from assms(2) have "n div 1000 < 1000" by presburger
  then have s: "n div 1000 < 2 ^ Suc 9" by simp
  have "\<exists>x. true_divide n 1000 = Inr x \<and>
             \<bar>real_of_int (round_tenths x) / 10 - of_int n / of_int 1000\<bar> \<le> 1 / 20"
    by (rule nearest_tenth [of 50, OF _ _ assms(1) s]) simp_all
  with assms show ?thesis
    by (auto simp: format_number_def fmt_1f_def)
qed

lemmas fn_eval2 = fn_eval ilog2.simps

text \<open>
  Claim C7, amended: \<open>format_number\<close> returns \<open>0\<close> on \<open>None\<close>; for a count from one
  million up to, but not including, \<open>2 ^ 34\<close> millions (17179869184000000) it returns the
  count in millions to one decimal, a number of tenths within half a tenth of the
  quotient, with the suffix \<open>M\<close>; for a count from one thousand up to one million the same
  in thousands with the suffix \<open>K\<close>; below one thousand the integer as it is; and the
  sample values of the claim hold.
\<close>

theorem C7_format_number:
  "format_number None = Inr ''0'' \<and>
   (1000000 \<le> n \<and> n < 17179869184000000 \<longrightarrow>
      (\<exists>t. format_number (Some n) = Inr (tenths_string t @ ''M'') \<and>
           \<bar>real_of_int t / 10 - real_of_int n / 1000000\<bar> \<le> 1 / 20)) \<and>
   (1000 \<le> n \<and> n < 1000000 \<longrightarrow>
      (\<exists>t. format_number (Some n) = Inr (tenths_string t @ ''K'') \<and>
           \<bar>real_of_int t / 10 - real_of_int n / 1000\<bar> \<le> 1 / 20)) \<and>
   (n < 1000 \<longrightarrow> format_number (Some n) = Inr (str_int n)) \<and>
   format_number (Some 1500) = Inr ''1.5K'' \<and>
   format_number (Some 2300000) = Inr ''2.3M''"
proof -
  have a: "format_number None = Inr ''0''" by (simp add: format_number_def)
  have b: "format_number (Some 1500) = Inr ''1.5K''" by (simp add: fn_eval2)
  have c: "format_number (Some 2300000) = Inr ''2.3M''" by (simp add: fn_eval2)
  have e: "n < 1000 \<longrightarrow> format_number (Some n) = Inr (str_int n)"
    by (simp add: format_number_def)
  from a b c e format_number_millions [of n] format_number_thousands [of n]
  show ?thesis by blast
qed

theorem C7_format_number_witness:
  "(\<exists>t. format_number (Some 1250000) = Inr (tenths_string t @ ''M'') \<and>
        \<bar>real_of_int t / 10 - real_of_int 1250000 / 1000000\<bar> \<le> 1 / 20) \<and>
   (\<exists>t. format_number (Some 999950) = Inr (tenths_string t @ ''K'') \<and>
        \<bar>real_of_int t / 10 - real_of_int 999950 / 1000\<bar> \<le> 1 / 20) \<and>
   format_number (Some (- 5)) = Inr (str_int (- 5))"
  using C7_format_number [of 1250000] C7_format_number [of 999950] C7_format_number [of "- 5"]
  by simp

text \<open>
  Claim C7, as stated, has the count in millions rounded to one decimal for every count
  from one million on. The count below is 17179869184.050001 millions, which rounds to
  17179869184.1; the double nearest to the quotient lies a little under 17179869184.05,
  and the string printed ends in \<open>.0\<close>, more than half a tenth from the count.
\<close>

theorem C7_counterexample:
  "format_number (Some 17179869184050001) = Inr ''17179869184.0M'' \<and>
   \<not> \<bar>real_of_int 171798691840 / 10 - real_of_int 17179869184050001 / 1000000\<bar> \<le> 1 / 20"
  by (simp add: fn_eval2)

text \<open>A larger count with the same effect.\<close>

lemma format_number_larger_count:
  "format_number (Some 48883684545850001) = Inr ''48883684545.8M''"
  by (simp add: fn_eval2)

text \<open>
  Counts half-way between two tenths: 1.25 and 1.75 are doubles and go to the even tenth;
  1.05 and 1.45 are not, and the double nearest to them decides.
\<close>

lemma format_number_half_tenths:
  "format_number (Some 1250) = Inr ''1.2K''"
  "format_number (Some 1750) = Inr ''1.8K''"
  "format_number (Some 1050) = Inr ''1.1K''"
  "format_number (Some 1450) = Inr ''1.4K''"
  "format_number (Some 999950) = Inr ''1000.0K''"
  by (simp_all add: fn_eval2)

section \<open>Properties of the stable descending sort\<close>

lemma mset_insert_desc: "mset (insert_desc key x xs) = add_mset x (mset xs)"
  by (induction xs) simp_all

lemma mset_sort_desc: "mset (sort_desc key xs) = mset xs"
  by (induction xs) (simp_all add: mset_insert_desc)

lemma set_sort_desc: "set (sort_desc key xs) = set xs"
  using mset_sort_desc [of key xs] by (metis set_mset_mset)

lemma length_sort_desc: "length (sort_desc key xs) = length xs"
  using mset_sort_desc [of key xs] by (metis size_mset)

lemma set_insert_desc: "set (insert_desc key x xs) = insert x (set xs)"
  using mset_insert_desc [of key x xs] by (metis set_mset_add_mset_insert set_mset_mset)

lemma sorted_insert_desc:
  "sorted_wrt (\<lambda>a b. key b \<le> key a) xs \<Longrightarrow> sorted_wrt (\<lambda>a b. key b \<le> key a) (insert_desc key x xs)"
  by (induction xs) (auto simp: set_insert_desc)

lemma sorted_sort_desc: "sorted_wrt (\<lambda>a b. key b \<le> key a) (sort_desc key xs)"
  by (induction xs) (simp_all add: sorted_insert_desc)

lemma insert_desc_head:
  "\<forall>y\<in>set xs. key y \<le> key x \<Longrightarrow> insert_desc key x xs = x # xs"
  by (cases xs) simp_all

lemma sort_desc_sorted:
  "sorted_wrt (\<lambda>a b. key b \<le> key a) xs \<Longrightarrow> sort_desc key xs = xs"
  by (induction xs) (simp_all add: insert_desc_head)

lemma filter_insert_desc:
  "filter (\<lambda>y. key y = c) (insert_desc key x xs) =
     (if key x = c then x # filter (\<lambda>y. key y = c) xs else filter (\<lambda>y. key y = c) xs)"
  by (induction xs) auto

lemma sort_desc_stable:
  "filter (\<lambda>y. key y = c) (sort_desc key xs) = filter (\<lambda>y. key y = c) xs"
  by (induction xs) (simp_all add: filter_insert_desc)

lemma insert_desc_map:
  "insert_desc (\<lambda>p. f (snd p)) (x, kv x) (map (\<lambda>x. (x, kv x)) ys) =
     map (\<lambda>x. (x, kv x)) (insert_desc (\<lambda>x. f (kv x)) x ys)"
  by (induction ys) simp_all

lemma sort_desc_map:
  "sort_desc (\<lambda>p. f (snd p)) (map (\<lambda>x. (x, kv x)) xs) =
     map (\<lambda>x. (x, kv x)) (sort_desc (\<lambda>x. f (kv x)) xs)"
  by (induction xs) (simp_all add: insert_desc_map)

lemma sort_desc_short: "length xs < 2 \<Longrightarrow> sort_desc key xs = xs"
  by (cases xs) (auto simp: Suc_less_eq2 less_Suc_eq numeral_2_eq_2)

lemma compute_keys_Inr:
  "compute_keys key xs = Inr kxs \<Longrightarrow>
     kxs = map (\<lambda>x. (x, projr (key x))) xs \<and> (\<forall>x\<in>set xs. key x = Inr (projr (key x)))"
  by (induction xs arbitrary: kxs) (auto split: sum.splits)

lemma compute_keys_Inl:
  "compute_keys key xs = Inl e \<Longrightarrow> \<exists>x\<in>set xs. key x = Inl e"
  by (induction xs) (auto split: sum.splits)

lemma compute_keys_total:
  "\<forall>x\<in>set xs. key x = Inr (kv x) \<Longrightarrow> compute_keys key xs = Inr (map (\<lambda>x. (x, kv x)) xs)"
  by (induction xs) simp_all

lemma sort_keyed_map:
  "sort_keyed (map (\<lambda>x. (x, kv x)) xs) =
     (if length xs < 2 then Inr xs
      else if list_all (\<lambda>x. is_number (kv x)) xs then Inr (sort_desc (\<lambda>x. the_num (kv x)) xs)
      else if list_all (\<lambda>x. is_string (kv x)) xs then Inr (sort_desc (\<lambda>x. the_str (kv x)) xs)
      else Inl TypeError)"
  by (simp add: sort_keyed_def sort_desc_map list_all_iff comp_def)

lemma py_sorted_total:
  assumes "\<forall>x\<in>set xs. key x = Inr (kv x)"
  shows "py_sorted key xs =
     (if length xs < 2 then Inr xs
      else if list_all (\<lambda>x. is_number (kv x)) xs then Inr (sort_desc (\<lambda>x. the_num (kv x)) xs)
      else if list_all (\<lambda>x. is_string (kv x)) xs then Inr (sort_desc (\<lambda>x. the_str (kv x)) xs)
      else Inl TypeError)"
  unfolding py_sorted_def compute_keys_total [OF assms] by (simp add: sort_keyed_map)

lemma py_sorted_numeric:
  assumes "\<forall>x\<in>set xs. key x = Inr (kv x)" "\<forall>x\<in>set xs. is_number (kv x)"
  shows "py_sorted key xs = Inr (sort_desc (\<lambda>x. the_num (kv x)) xs)"
  using assms(2) by (simp add: py_sorted_total [OF assms(1)] sort_desc_short list_all_iff)

lemma py_sorted_Inl:
  "py_sorted key xs = Inl e \<Longrightarrow> e = TypeError \<or> (\<exists>x\<in>set xs. key x = Inl e)"
proof (cases "compute_keys key xs")
  case (Inl e')
  assume "py_sorted key xs = Inl e"
  with Inl have "e' = e" by (simp add: py_sorted_def)
  with Inl show ?thesis using compute_keys_Inl by blast
next
  case (Inr kxs)
  assume "py_sorted key xs = Inl e"
  with Inr show ?thesis by (auto simp: py_sorted_def sort_keyed_def split: if_splits)
qed

lemma py_sorted_Inr:
  assumes "py_sorted key xs = Inr ys"
  shows "(\<forall>x\<in>set xs. key x = Inr (projr (key x))) \<and>
         (ys = sort_desc (\<lambda>x. the_num (projr (key x))) xs \<and> (2 \<le> length xs \<longrightarrow> list_all (\<lambda>x. is_number (projr (key x))) xs) \<or>
          ys = sort_desc (\<lambda>x. the_str (projr (key x))) xs \<and> (2 \<le> length xs \<longrightarrow> list_all (\<lambda>x. is_string (projr (key x))) xs))"
proof -
  from assms obtain kxs where k: "compute_keys key xs = Inr kxs"
    by (auto simp: py_sorted_def split: sum.splits)
  from compute_keys_Inr [OF k] have t: "\<forall>x\<in>set xs. key x = Inr (projr (key x))" by simp
  from assms show ?thesis
    unfolding py_sorted_total [OF t] using t
    by (auto simp: sort_desc_short split: if_splits)
qed

lemma py_sorted_mset: "py_sorted key xs = Inr ys \<Longrightarrow> mset ys = mset xs"
  using py_sorted_Inr [of key xs ys] by (auto simp: mset_sort_desc)

lemma py_sorted_idem:
  assumes "py_sorted key xs = Inr ys"
  shows "py_sorted key ys = Inr ys"
proof -
  note r = py_sorted_Inr [OF assms]
  have m: "mset ys = mset xs" by (rule py_sorted_mset [OF assms])
  then have s: "set ys = set xs" by (metis set_mset_mset)
  from m have l: "length ys = length xs" by (metis size_mset)
  from r s have t: "\<forall>x\<in>set ys. key x = Inr (projr (key x))" by simp
  from r show ?thesis
  proof (elim conjE disjE)
    assume a: "ys = sort_desc (\<lambda>x. the_num (projr (key x))) xs"
      and b: "2 \<le> length xs \<longrightarrow> list_all (\<lambda>x. is_number (projr (key x))) xs"
    have "sort_desc (\<lambda>x. the_num (projr (key x))) ys = ys"
      unfolding a by (rule sort_desc_sorted) (rule sorted_sort_desc)
    with b l s show ?thesis
      by (auto simp: py_sorted_total [OF t] list_all_iff)
  next
    assume a: "ys = sort_desc (\<lambda>x. the_str (projr (key x))) xs"
      and b: "2 \<le> length xs \<longrightarrow> list_all (\<lambda>x. is_string (projr (key x))) xs"
    have "sort_desc (\<lambda>x. the_str (projr (key x))) ys = ys"
      unfolding a by (rule sort_desc_sorted) (rule sorted_sort_desc)
    moreover have "list_all (\<lambda>x. is_string (projr (key x))) ys \<Longrightarrow> list_all (\<lambda>x. is_number (projr (key x))) ys \<Longrightarrow> 2 \<le> length ys \<Longrightarrow> False"
      by (cases ys) (auto, metis is_number.elims(2) is_string.simps(3))
    ultimately show ?thesis using b l s
      by (auto simp: py_sorted_total [OF t] list_all_iff)
  qed
qed

section \<open>The first loop in closed form\<close>

lemma set_first_seen: "set (first_seen xs) = set xs"
  by (induction xs) auto

lemma distinct_first_seen: "distinct (first_seen xs)"
  by (induction xs) (auto simp: set_first_seen)

lemma first_seen_snoc:
  "first_seen (xs @ [x]) = (if x \<in> set xs then first_seen xs else first_seen xs @ [x])"
  by (induction xs) auto

lemma collect_groups_snoc: "collect_groups (rs @ [r]) = add_result (collect_groups rs) r"
  by (simp add: collect_groups_def)

lemma matches_of_snoc:
  "matches_of v (rs @ [r]) = (if video_id r = v then matches_of v rs @ [r] else matches_of v rs)"
  by (simp add: matches_of_def)

lemma matches_of_empty: "matches_of v rs = [] \<longleftrightarrow> v \<notin> video_id ` set rs"
  by (auto simp: matches_of_def filter_empty_conv)

lemma group_of_snoc_other: "video_id r \<noteq> v \<Longrightarrow> group_of (rs @ [r]) v = group_of rs v"
  by (simp add: group_of_def matches_of_snoc)

lemma group_of_snoc_same:
  "v \<in> video_id ` set rs \<Longrightarrow> video_id r = v \<Longrightarrow>
   group_of (rs @ [r]) v = (group_of rs v)\<lparr>segments := segments (group_of rs v) @ [r]\<rparr>"
  using matches_of_empty [of v rs]
  by (cases "matches_of v rs") (auto simp: group_of_def matches_of_snoc)

lemma group_of_snoc_new:
  "v \<notin> video_id ` set rs \<Longrightarrow> video_id r = v \<Longrightarrow>
   group_of (rs @ [r]) v = (new_group r)\<lparr>segments := segments (new_group r) @ [r]\<rparr>"
  using matches_of_empty [of v rs]
  by (simp add: group_of_def matches_of_snoc new_group_def)

lemma collect_groups_eq:
  "collect_groups rs = map (\<lambda>v. (v, group_of rs v)) (first_seen (map video_id rs))"
proof (induction rs rule: rev_induct)
  case Nil
  show ?case by (simp add: collect_groups_def)
next
  case (snoc r rs)
  let ?ids = "first_seen (map video_id rs)"
  have ids: "set ?ids = video_id ` set rs" by (simp add: set_first_seen)
  show ?case
  proof (cases "video_id r \<in> video_id ` set rs")
    case True
    have "append_segment (video_id r) r (map (\<lambda>v. (v, group_of rs v)) ?ids) =
          map (\<lambda>v. (v, group_of (rs @ [r]) v)) ?ids"
      unfolding append_segment_def using True
      by (auto simp: group_of_snoc_other group_of_snoc_same)
    with True show ?thesis
      by (simp add: collect_groups_snoc snoc.IH add_result_def ids first_seen_snoc comp_def Let_def)
  next
    case False
    then have ne: "\<forall>x\<in>set rs. video_id x \<noteq> video_id r" by (metis imageI)
    have "append_segment (video_id r) r (map (\<lambda>v. (v, group_of rs v)) ?ids @ [(video_id r, new_group r)]) =
          map (\<lambda>v. (v, group_of (rs @ [r]) v)) ?ids @ [(video_id r, group_of (rs @ [r]) (video_id r))]"
      unfolding append_segment_def using False ids ne
      by (auto simp: group_of_snoc_other group_of_snoc_new)
    with False show ?thesis
      by (simp add: collect_groups_snoc snoc.IH add_result_def ids first_seen_snoc comp_def Let_def)
  qed
qed

section \<open>The second loop and the final dictionary\<close>

lemma sort_segments_Inr:
  "sort_segments gs = Inr gs' \<Longrightarrow> list_all2 seg_sorted gs gs'"
proof (induction gs arbitrary: gs' rule: sort_segments.induct)
  case 1
  then show ?case by simp
next
  case (2 k g groups)
  then show ?case
    by (auto simp: seg_sorted_def split: sum.splits)
qed

lemma sort_segments_Inl: "sort_segments gs = Inl e \<Longrightarrow> e = TypeError"
proof (induction gs rule: sort_segments.induct)
  case 1
  then show ?case by simp
next
  case (2 k g groups)
  then show ?case
    using py_sorted_Inl [of "\<lambda>x. Inr (similarity_key x)" "segments g" e]
    by (auto split: sum.splits)
qed

lemma seg_sorted_idem: "seg_sorted kg kg' \<Longrightarrow> seg_sorted kg' kg'"
  by (auto simp: seg_sorted_def dest: py_sorted_idem)

lemma sort_segments_fixed:
  "list_all (\<lambda>kg. seg_sorted kg kg) gs \<Longrightarrow> sort_segments gs = Inr gs"
proof (induction gs rule: sort_segments.induct)
  case 1
  then show ?case by simp
next
  case (2 k g groups)
  then show ?case by (simp add: seg_sorted_def)
qed

lemma sort_segments_idem:
  assumes "sort_segments gs = Inr gs'"
  shows "sort_segments gs' = Inr gs'"
proof -
  from sort_segments_Inr [OF assms] have "list_all (\<lambda>kg. seg_sorted kg kg) gs'"
    by (induction rule: list_all2_induct) (auto dest: seg_sorted_idem)
  then show ?thesis by (rule sort_segments_fixed)
qed

lemma the_num_similarity_key: "the_num (similarity_key r) = similarity_or_zero r"
  by (cases "similarity r") (auto simp: similarity_key_def py_or_def similarity_or_zero_def)

lemma is_number_similarity_key:
  "\<not> is_string (similarity r) \<Longrightarrow> is_number (similarity_key r)"
  by (cases "similarity r") (auto simp: similarity_key_def py_or_def)

lemma py_sorted_segments_numeric:
  "\<forall>r\<in>set segs. \<not> is_string (similarity r) \<Longrightarrow>
   py_sorted (\<lambda>x. Inr (similarity_key x)) segs = Inr (sort_desc similarity_or_zero segs)"
  using py_sorted_numeric [of segs "\<lambda>x. Inr (similarity_key x)" similarity_key]
  by (simp add: is_number_similarity_key the_num_similarity_key)

lemma sort_segments_numeric:
  "\<forall>kg\<in>set gs. \<forall>r\<in>set (segments (snd kg)). \<not> is_string (similarity r) \<Longrightarrow>
   sort_segments gs =
     Inr (map (\<lambda>kg. (fst kg, (snd kg)\<lparr>segments := sort_desc similarity_or_zero (segments (snd kg))\<rparr>)) gs)"
proof (induction gs rule: sort_segments.induct)
  case 1
  then show ?case by simp
next
  case (2 k g groups)
  then show ?case by (simp add: py_sorted_segments_numeric)
qed

lemma foldl_dict_set_distinct:
  "distinct (map fst (d @ xs)) \<Longrightarrow> foldl dict_set d xs = d @ xs"
proof (induction xs arbitrary: d)
  case Nil
  then show ?case by simp
next
  case (Cons x xs)
  from Cons.prems have "fst x \<notin> set (map fst d)" by auto
  then have "dict_set d x = d @ [x]" by (simp add: dict_set_def)
  moreover from Cons.prems have "distinct (map fst ((d @ [x]) @ xs))" by simp
  ultimately show ?case using Cons.IH [of "d @ [x]"] by simp
qed

lemma dict_of_items_distinct: "distinct (map fst xs) \<Longrightarrow> dict_of_items xs = xs"
  using foldl_dict_set_distinct [of "[]" xs] by (simp add: dict_of_items_def)

lemma map_fst_collect_groups: "map fst (collect_groups rs) = first_seen (map video_id rs)"
  by (simp add: collect_groups_eq comp_def)

lemma sort_segments_keys: "sort_segments gs = Inr gs' \<Longrightarrow> map fst gs' = map fst gs"
proof -
  assume "sort_segments gs = Inr gs'"
  from sort_segments_Inr [OF this] show ?thesis
    by (induction rule: list_all2_induct) (auto simp: seg_sorted_def)
qed

lemma mset_distinct_keys:
  "mset ys = mset xs \<Longrightarrow> distinct (map fst xs) \<Longrightarrow> distinct (map fst ys)"
proof -
  assume a: "mset ys = mset xs" and d: "distinct (map fst xs)"
  from a have "mset (map fst ys) = mset (map fst xs)" by simp
  with d show ?thesis by (metis mset_eq_imp_distinct_iff)
qed

lemma group_results_Inr:
  "group_results_by_video rs = Inr gs \<longleftrightarrow>
     (\<exists>gs1. sort_segments (collect_groups rs) = Inr gs1 \<and> py_sorted best_key gs1 = Inr gs)"
proof -
  have "dict_of_items gs2 = gs2"
    if a: "sort_segments (collect_groups rs) = Inr gs1" and b: "py_sorted best_key gs1 = Inr gs2"
    for gs1 gs2
  proof -
    have "distinct (map fst gs1)"
      by (simp add: sort_segments_keys [OF a] map_fst_collect_groups distinct_first_seen)
    with py_sorted_mset [OF b] have "distinct (map fst gs2)" by (rule mset_distinct_keys)
    then show ?thesis by (rule dict_of_items_distinct)
  qed
  then show ?thesis
    by (auto simp: group_results_by_video_def split: sum.splits)
qed

section \<open>The groups of a result\<close>

lemma list_all2_member2:
  "list_all2 P xs ys \<Longrightarrow> y \<in> set ys \<Longrightarrow> \<exists>x\<in>set xs. P x y"
  by (induction rule: list_all2_induct) auto

lemma collect_groups_member:
  "kg \<in> set (collect_groups rs) \<Longrightarrow>
     fst kg \<in> video_id ` set rs \<and> snd kg = group_of rs (fst kg)"
  by (auto simp: collect_groups_eq set_first_seen)

lemma group_member:
  assumes "group_results_by_video rs = Inr gs" "(k, g) \<in> set gs"
  shows "k \<in> video_id ` set rs \<and> video_info g = video_info (group_of rs k) \<and>
         py_sorted (\<lambda>x. Inr (similarity_key x)) (matches_of k rs) = Inr (segments g)"
proof -
  from assms(1) obtain gs1 where a: "sort_segments (collect_groups rs) = Inr gs1"
    and b: "py_sorted best_key gs1 = Inr gs"
    unfolding group_results_Inr by blast
  have "set gs = set gs1" by (rule mset_eq_setD) (rule py_sorted_mset [OF b])
  with assms(2) have "(k, g) \<in> set gs1" by simp
  from list_all2_member2 [OF sort_segments_Inr [OF a] this] obtain kg0 where
    m: "kg0 \<in> set (collect_groups rs)" and s: "seg_sorted kg0 (k, g)"
    by blast
  from collect_groups_member [OF m] have c: "fst kg0 \<in> video_id ` set rs"
    "snd kg0 = group_of rs (fst kg0)" by simp_all
  from s have d: "k = fst kg0" "video_info g = video_info (snd kg0)"
    "py_sorted (\<lambda>x. Inr (similarity_key x)) (segments (snd kg0)) = Inr (segments g)"
    by (simp_all add: seg_sorted_def)
  from c d show ?thesis by (simp add: group_of_def)
qed

lemma group_keys:
  assumes "group_results_by_video rs = Inr gs"
  shows "mset (map fst gs) = mset (first_seen (map video_id rs))"
proof -
  from assms obtain gs1 where a: "sort_segments (collect_groups rs) = Inr gs1"
    and b: "py_sorted best_key gs1 = Inr gs"
    unfolding group_results_Inr by blast
  have "mset (map fst gs) = mset (map fst gs1)" using py_sorted_mset [OF b] by simp
  then show ?thesis by (simp add: sort_segments_keys [OF a] map_fst_collect_groups)
qed

lemma group_keys_distinct:
  assumes "group_results_by_video rs = Inr gs"
  shows "distinct (map fst gs)"
  using mset_eq_imp_distinct_iff [OF group_keys [OF assms]]
  by (simp add: distinct_first_seen)

lemma group_keys_set:
  assumes "group_results_by_video rs = Inr gs"
  shows "fst ` set gs = video_id ` set rs"
  using mset_eq_setD [OF group_keys [OF assms]]
  by (simp add: set_first_seen)

lemma group_segments_mset:
  assumes "group_results_by_video rs = Inr gs" "(k, g) \<in> set gs"
  shows "mset (segments g) = mset (matches_of k rs)"
proof -
  from group_member [OF assms]
  have "py_sorted (\<lambda>x. Inr (similarity_key x)) (matches_of k rs) = Inr (segments g)" by simp
  then show ?thesis by (rule py_sorted_mset)
qed

lemma group_segments_nonempty:
  assumes "group_results_by_video rs = Inr gs" "(k, g) \<in> set gs"
  shows "segments g \<noteq> []"
proof -
  from group_member [OF assms] have "matches_of k rs \<noteq> []"
    by (simp add: matches_of_empty)
  then have "mset (matches_of k rs) \<noteq> {#}" by simp
  with group_segments_mset [OF assms] have "mset (segments g) \<noteq> {#}" by simp
  then show ?thesis by simp
qed

lemma sorted_groups_nonempty:
  assumes "sort_segments (collect_groups rs) = Inr gs1" "kg \<in> set gs1"
  shows "segments (snd kg) \<noteq> []"
proof -
  from list_all2_member2 [OF sort_segments_Inr [OF assms(1)] assms(2)] obtain kg0 where
    m: "kg0 \<in> set (collect_groups rs)" and s: "seg_sorted kg0 kg"
    by blast
  from collect_groups_member [OF m] have "segments (snd kg0) \<noteq> []"
    by (simp add: group_of_def matches_of_empty)
  then have n: "mset (segments (snd kg0)) \<noteq> {#}" by simp
  from s have "py_sorted (\<lambda>x. Inr (similarity_key x)) (segments (snd kg0)) = Inr (segments (snd kg))"
    by (simp add: seg_sorted_def)
  from py_sorted_mset [OF this] n have "mset (segments (snd kg)) \<noteq> {#}" by simp
  then show ?thesis by simp
qed

lemma best_key_nonempty: "segments (snd kg) \<noteq> [] \<Longrightarrow> best_key kg \<noteq> Inl e"
  by (cases "segments (snd kg)") (simp_all add: best_key_def)

lemma group_results_no_IndexError: "group_results_by_video rs \<noteq> Inl IndexError"
proof
  assume e: "group_results_by_video rs = Inl IndexError"
  show False
  proof (cases "sort_segments (collect_groups rs)")
    case (Inl e')
    from sort_segments_Inl [OF Inl] have "e' = TypeError" .
    with e Inl show False
      by (simp add: group_results_by_video_def)
  next
    case (Inr gs1)
    have "py_sorted best_key gs1 = Inl IndexError"
    proof (cases "py_sorted best_key gs1")
      case (Inl e')
      with e Inr show ?thesis by (simp add: group_results_by_video_def)
    next
      case (Inr gs2)
      with e \<open>sort_segments (collect_groups rs) = Inr gs1\<close> show ?thesis
        by (simp add: group_results_by_video_def)
    qed
    from py_sorted_Inl [OF this] obtain kg where kg: "kg \<in> set gs1" "best_key kg = Inl IndexError"
      by auto
    from sorted_groups_nonempty [OF Inr kg(1)] have "best_key kg \<noteq> Inl IndexError"
      by (rule best_key_nonempty)
    with kg(2) show False by simp
  qed
qed

lemma group_results_Inl: "group_results_by_video rs = Inl e \<Longrightarrow> e = TypeError"
  using group_results_no_IndexError [of rs] by (cases e) simp_all

section \<open>Results on numeric similarities\<close>

lemma numeric_matches:
  "numeric_similarities rs \<Longrightarrow> r \<in> set (matches_of v rs) \<Longrightarrow> \<not> is_string (similarity r)"
  by (simp add: numeric_similarities_def matches_of_def list_all_iff)

lemma sort_segments_collect_numeric:
  assumes "numeric_similarities rs"
  shows "sort_segments (collect_groups rs) =
     Inr (map (\<lambda>v. (v, (group_of rs v)\<lparr>segments := sort_desc similarity_or_zero (matches_of v rs)\<rparr>))
            (first_seen (map video_id rs)))"
proof -
  have "\<forall>kg\<in>set (collect_groups rs). \<forall>r\<in>set (segments (snd kg)). \<not> is_string (similarity r)"
    using numeric_matches [OF assms] by (auto simp: collect_groups_eq group_of_def)
  from sort_segments_numeric [OF this] show ?thesis
    by (simp add: collect_groups_eq comp_def group_of_def)
qed

text \<open>The key of a group as a total function: the key of its first segment.\<close>

lemma best_key_Cons: "segments (snd kg) = s # rest \<Longrightarrow> best_key kg = Inr (similarity_key s)"
  by (simp add: best_key_def)

lemma top_similarity_Cons: "segments g = s # rest \<Longrightarrow> top_similarity g = similarity_or_zero s"
  by (simp add: top_similarity_def)

lemma py_sorted_best_key_numeric:
  assumes ne: "\<forall>kg\<in>set gs1. segments (snd kg) \<noteq> []"
    and num: "\<forall>kg\<in>set gs1. \<forall>r\<in>set (segments (snd kg)). \<not> is_string (similarity r)"
  shows "py_sorted best_key gs1 = Inr (sort_desc (\<lambda>kg. top_similarity (snd kg)) gs1)"
proof -
  define kv where "kv = (\<lambda>kg :: pyval \<times> video_group.
    case segments (snd kg) of [] \<Rightarrow> PNum 0 | s # rest \<Rightarrow> similarity_key s)"
  have a: "\<forall>kg\<in>set gs1. best_key kg = Inr (kv kg)"
  proof
    fix kg assume "kg \<in> set gs1"
    with ne obtain s rest where "segments (snd kg) = s # rest"
      by (cases "segments (snd kg)") auto
    then show "best_key kg = Inr (kv kg)" by (simp add: best_key_def kv_def)
  qed
  have b: "\<forall>kg\<in>set gs1. is_number (kv kg)"
  proof
    fix kg assume m: "kg \<in> set gs1"
    show "is_number (kv kg)"
    proof (cases "segments (snd kg)")
      case Nil
      then show ?thesis by (simp add: kv_def)
    next
      case (Cons s rest)
      with num m have "\<not> is_string (similarity s)" by force
      with Cons show ?thesis by (simp add: kv_def is_number_similarity_key)
    qed
  qed
  have c: "(\<lambda>kg. the_num (kv kg)) = (\<lambda>kg. top_similarity (snd kg))"
  proof
    fix kg show "the_num (kv kg) = top_similarity (snd kg)"
      by (cases "segments (snd kg)")
         (simp_all add: kv_def top_similarity_def the_num_similarity_key)
  qed
  from py_sorted_numeric [OF a b] show ?thesis by (simp add: c)
qed

lemma group_results_numeric:
  assumes "numeric_similarities rs"
  shows "group_results_by_video rs =
     Inr (sort_desc (\<lambda>kg. top_similarity (snd kg))
            (map (\<lambda>v. (v, (group_of rs v)\<lparr>segments := sort_desc similarity_or_zero (matches_of v rs)\<rparr>))
               (first_seen (map video_id rs))))"
proof -
  let ?gs1 = "map (\<lambda>v. (v, (group_of rs v)\<lparr>segments := sort_desc similarity_or_zero (matches_of v rs)\<rparr>))
               (first_seen (map video_id rs))"
  have a: "sort_segments (collect_groups rs) = Inr ?gs1"
    by (rule sort_segments_collect_numeric [OF assms])
  have ne: "\<forall>kg\<in>set ?gs1. segments (snd kg) \<noteq> []"
    using sorted_groups_nonempty [OF a] by blast
  have num: "\<forall>kg\<in>set ?gs1. \<forall>r\<in>set (segments (snd kg)). \<not> is_string (similarity r)"
    using numeric_matches [OF assms] by (auto simp: set_sort_desc)
  have "py_sorted best_key ?gs1 = Inr (sort_desc (\<lambda>kg. top_similarity (snd kg)) ?gs1)"
    by (rule py_sorted_best_key_numeric [OF ne num])
  with a show ?thesis unfolding group_results_Inr by blast
qed

lemma group_results_total:
  "numeric_similarities rs \<Longrightarrow> \<exists>gs. group_results_by_video rs = Inr gs"
  by (simp add: group_results_numeric)

lemma group_numeric_member:
  assumes "numeric_similarities rs" "group_results_by_video rs = Inr gs" "(k, g) \<in> set gs"
  shows "segments g = sort_desc similarity_or_zero (matches_of k rs)"
proof -
  have "\<not> is_string (similarity r)" if "r \<in> set (matches_of k rs)" for r
    using numeric_matches [OF assms(1) that] .
  then have "py_sorted (\<lambda>x. Inr (similarity_key x)) (matches_of k rs) =
      Inr (sort_desc similarity_or_zero (matches_of k rs))"
    by (intro py_sorted_segments_numeric) blast
  with group_member [OF assms(2,3)] show ?thesis by simp
qed

section \<open>Completeness, metadata and non-empty groups\<close>

lemma mset_matches_split:
  "v \<notin> set vs \<Longrightarrow>
   mset (matches_of v rs) + mset (filter (\<lambda>r. video_id r \<in> set vs) rs) =
   mset (filter (\<lambda>r. video_id r \<in> set (v # vs)) rs)"
  by (induction rs) (auto simp: matches_of_def)

lemma mset_concat_matches:
  "distinct vs \<Longrightarrow>
   mset (concat (map (\<lambda>v. matches_of v rs) vs)) = mset (filter (\<lambda>r. video_id r \<in> set vs) rs)"
proof (induction vs)
  case Nil
  then show ?case by simp
next
  case (Cons v vs)
  then have "mset (concat (map (\<lambda>v. matches_of v rs) (v # vs))) =
      mset (matches_of v rs) + mset (filter (\<lambda>r. video_id r \<in> set vs) rs)"
    by simp
  also have "\<dots> = mset (filter (\<lambda>r. video_id r \<in> set (v # vs)) rs)"
    using Cons.prems by (intro mset_matches_split) simp
  finally show ?case .
qed

lemma flatten_collect_groups:
  "flatten (collect_groups rs) = concat (map (\<lambda>v. matches_of v rs) (first_seen (map video_id rs)))"
  by (simp add: flatten_def collect_groups_eq comp_def group_of_def)

lemma mset_flatten_collect_groups: "mset (flatten (collect_groups rs)) = mset rs"
proof -
  have "filter (\<lambda>r. video_id r \<in> set (first_seen (map video_id rs))) rs = rs"
    by (simp add: set_first_seen)
  with mset_concat_matches [of "first_seen (map video_id rs)" rs, OF distinct_first_seen]
  show ?thesis by (simp add: flatten_collect_groups)
qed

lemma mset_flatten:
  "mset (flatten gs) = sum_mset (image_mset (\<lambda>kg. mset (segments (snd kg))) (mset gs))"
  by (induction gs) (simp_all add: flatten_def)

lemma mset_flatten_cong: "mset gs = mset gs' \<Longrightarrow> mset (flatten gs) = mset (flatten gs')"
  by (simp add: mset_flatten)

lemma mset_flatten_sorted:
  "list_all2 seg_sorted gs0 gs1 \<Longrightarrow> mset (flatten gs1) = mset (flatten gs0)"
proof (induction rule: list_all2_induct)
  case Nil
  show ?case by simp
next
  case (Cons kg0 gs0 kg1 gs1)
  from Cons.hyps(1) have "mset (segments (snd kg1)) = mset (segments (snd kg0))"
    unfolding seg_sorted_def using py_sorted_mset by blast
  with Cons.IH show ?case by (simp add: flatten_def)
qed

lemma group_results_mset:
  assumes "group_results_by_video rs = Inr gs"
  shows "mset (flatten gs) = mset rs"
proof -
  from assms obtain gs1 where a: "sort_segments (collect_groups rs) = Inr gs1"
    and b: "py_sorted best_key gs1 = Inr gs"
    unfolding group_results_Inr by blast
  have "mset (flatten gs) = mset (flatten gs1)"
    by (rule mset_flatten_cong) (rule py_sorted_mset [OF b])
  also have "\<dots> = mset (flatten (collect_groups rs))"
    by (rule mset_flatten_sorted) (rule sort_segments_Inr [OF a])
  finally show ?thesis by (simp add: mset_flatten_collect_groups)
qed

lemma group_results_empty: "group_results_by_video [] = Inr []"
  by (simp add: group_results_by_video_def collect_groups_def py_sorted_def sort_keyed_def
        dict_of_items_def)

text \<open>
  Claim C3. Whenever \<open>group_results_by_video\<close> returns, the segment lists of its groups
  hold, together, exactly the input matches: none dropped, none twice. It returns on every
  input whose similarities are \<open>None\<close> or numbers, and on the empty input it returns the
  empty sequence of groups.
\<close>

theorem C3_completeness:
  "(numeric_similarities rs \<longrightarrow> (\<exists>gs. group_results_by_video rs = Inr gs)) \<and>
   (\<forall>gs. group_results_by_video rs = Inr gs \<longrightarrow> mset (flatten gs) = mset rs) \<and>
   group_results_by_video [] = Inr []"
  using group_results_total [of rs] group_results_mset [of rs] group_results_empty by blast

theorem C3_completeness_witness:
  "numeric_similarities example_rows \<and>
   (\<exists>gs. group_results_by_video example_rows = Inr gs \<and> mset (flatten gs) = mset example_rows)"
proof -
  have h: "numeric_similarities example_rows"
    by (simp add: numeric_similarities_def example_rows_def row_def)
  with C3_completeness [of example_rows] obtain gs where
    g: "group_results_by_video example_rows = Inr gs" by blast
  with C3_completeness [of example_rows] have "mset (flatten gs) = mset example_rows" by blast
  with h g show ?thesis by blast
qed

lemma find_matches_of:
  "find (\<lambda>r. video_id r = v) rs = Some r0 \<Longrightarrow> \<exists>rest. matches_of v rs = r0 # rest"
  by (induction rs) (auto simp: matches_of_def split: if_splits)

lemma group_results_metadata:
  assumes g: "group_results_by_video rs = Inr gs"
    and f: "find (\<lambda>r. video_id r = v) rs = Some r0"
  shows "\<exists>g. map_of gs v = Some g \<and> video_info g = video_info (new_group r0)"
proof -
  from find_matches_of [OF f] obtain rest where m: "matches_of v rs = r0 # rest" by blast
  then have "v \<in> video_id ` set rs" using matches_of_empty [of v rs] by simp
  with group_keys_set [OF g] obtain g0 where in_gs: "(v, g0) \<in> set gs" by force
  with group_keys_distinct [OF g] have "map_of gs v = Some g0" by simp
  moreover from group_member [OF g in_gs] m have "video_info g0 = video_info (new_group r0)"
    by (simp add: group_of_def)
  ultimately show ?thesis by blast
qed

text \<open>
  What a group keeps of the first match: for every video id of the input, the result has a
  group under that id, and its \<open>video_info\<close> holds the id and the title, description,
  publication time, duration and four counts of the first input match with that id,
  whatever later matches carry.
\<close>

lemma group_metadata_of_first_match:
  "(numeric_similarities rs \<longrightarrow> (\<exists>gs. group_results_by_video rs = Inr gs)) \<and>
   (\<forall>gs v r0. group_results_by_video rs = Inr gs \<and> find (\<lambda>r. video_id r = v) rs = Some r0 \<longrightarrow>
      (\<exists>g. map_of gs v = Some g \<and>
           video_info g =
             [(''video_id'', v), (''title'', title r0), (''description'', description r0),
              (''published_at'', published_at r0), (''duration'', duration r0),
              (''view_count'', view_count r0), (''like_count'', like_count r0),
              (''comment_count'', comment_count r0), (''favorite_count'', favorite_count r0)]))"
proof -
  have "\<exists>g. map_of gs v = Some g \<and>
           video_info g =
             [(''video_id'', v), (''title'', title r0), (''description'', description r0),
              (''published_at'', published_at r0), (''duration'', duration r0),
              (''view_count'', view_count r0), (''like_count'', like_count r0),
              (''comment_count'', comment_count r0), (''favorite_count'', favorite_count r0)]"
    if g: "group_results_by_video rs = Inr gs" and f: "find (\<lambda>r. video_id r = v) rs = Some r0"
    for gs v r0
  proof -
    from f have "video_id r0 = v" by (auto simp: find_Some_iff)
    with group_results_metadata [OF g f] show ?thesis by (simp add: new_group_def)
  qed
  with group_results_total [of rs] show ?thesis by blast
qed

text \<open>
  Claim C4. The metadata of a group should be the metadata carried by the first input match
  of its video, and that metadata includes the transcription language. Of the two matches
  below the first is in English: the group keeps the title of the first match, but its
  \<open>video_info\<close> holds no transcription language at all.
\<close>

theorem C4_language_of_first_match_dropped:
  "find (\<lambda>r. video_id r = PStr ''v1'') two_language_rows =
     Some (row (PStr ''v1'') (PStr ''A'') (PStr ''en'') (PNum (1 / 2))) \<and>
   group_results_by_video two_language_rows = Inr [(PStr ''v1'', two_language_group)] \<and>
   map_of (video_info two_language_group) ''title'' = Some (PStr ''A'') \<and>
   map_of (video_info two_language_group) ''transcription_language'' = None"
  by (simp add: two_language_rows_def two_language_group_def group_results_by_video_def
        collect_groups_def add_result_def append_segment_def new_group_def py_sorted_def
        sort_keyed_def best_key_def similarity_key_def py_or_def dict_of_items_def dict_set_def
        row_def Let_def)

text \<open>
  Claim C10. Every group of a result holds at least one segment, so \<open>segments[0]\<close> is in
  bounds wherever it is read: as the key of the sort of the videos, so that
  \<open>group_results_by_video\<close> never raises \<open>IndexError\<close>, and as the best segment of the
  renderers.
\<close>

theorem C10_groups_have_a_segment:
  "group_results_by_video rs \<noteq> Inl IndexError \<and>
   (\<forall>gs k g. group_results_by_video rs = Inr gs \<and> (k, g) \<in> set gs \<longrightarrow>
      segments g \<noteq> [] \<and>
      (\<exists>s. best_segment g = Inr s \<and> best_key (k, g) = Inr (similarity_key s)))"
proof -
  have "segments g \<noteq> [] \<and> (\<exists>s. best_segment g = Inr s \<and> best_key (k, g) = Inr (similarity_key s))"
    if "group_results_by_video rs = Inr gs" "(k, g) \<in> set gs" for gs k g
    using group_segments_nonempty [OF that]
    by (cases "segments g") (simp_all add: best_segment_def best_key_def)
  with group_results_no_IndexError [of rs] show ?thesis by blast
qed

theorem C10_groups_have_a_segment_witness:
  "\<exists>gs. group_results_by_video example_rows = Inr gs \<and> gs \<noteq> [] \<and>
     list_all (\<lambda>kg. \<exists>s. best_segment (snd kg) = Inr s) gs"
proof -
  have h: "numeric_similarities example_rows"
    by (simp add: numeric_similarities_def example_rows_def row_def)
  from group_results_total [OF h] obtain gs where
    g: "group_results_by_video example_rows = Inr gs" by blast
  from group_keys_set [OF g] have "gs \<noteq> []" by (auto simp: example_rows_def)
  moreover have "\<exists>s. best_segment (snd kg) = Inr s" if "kg \<in> set gs" for kg
  proof -
    from that have "(fst kg, snd kg) \<in> set gs" by simp
    with g C10_groups_have_a_segment [of example_rows] show ?thesis by blast
  qed
  then have "list_all (\<lambda>kg. \<exists>s. best_segment (snd kg) = Inr s) gs"
    by (simp add: list_all_iff)
  ultimately show ?thesis using g by blast
qed

section \<open>Ordering\<close>

text \<open>
  Claim C2. On matches whose similarities are \<open>None\<close> or numbers, \<open>group_results_by_video\<close>
  returns one group for each video id of the input and no other group; the segments of
  each group are the matches of that video, in
  non-increasing order of similarity (null counted as 0), matches of equal similarity in
  input order; the groups are in non-increasing order of the similarity of their first
  segment, groups of equal top similarity in the order of first occurrence of their ids.
\<close>

theorem C2_ordering:
  assumes "numeric_similarities rs"
  shows "\<exists>gs. group_results_by_video rs = Inr gs \<and>
     mset (map fst gs) = mset (first_seen (map video_id rs)) \<and>
     (\<forall>(k, g)\<in>set gs.
        mset (segments g) = mset (matches_of k rs) \<and>
        sorted_wrt (\<lambda>a b. similarity_or_zero b \<le> similarity_or_zero a) (segments g) \<and>
        (\<forall>c. filter (\<lambda>r. similarity_or_zero r = c) (segments g) =
             filter (\<lambda>r. similarity_or_zero r = c) (matches_of k rs))) \<and>
     sorted_wrt (\<lambda>a b. top_similarity (snd b) \<le> top_similarity (snd a)) gs \<and>
     (\<forall>c. map fst (filter (\<lambda>kg. top_similarity (snd kg) = c) gs) =
          filter (\<lambda>v. \<exists>g. (v, g) \<in> set gs \<and> top_similarity g = c)
            (first_seen (map video_id rs)))"
proof -
  define G where "G = (\<lambda>v. (group_of rs v)\<lparr>segments := sort_desc similarity_or_zero (matches_of v rs)\<rparr>)"
  define ids where "ids = first_seen (map video_id rs)"
  define gs1 where "gs1 = map (\<lambda>v. (v, G v)) ids"
  define gs where "gs = sort_desc (\<lambda>kg. top_similarity (snd kg)) gs1"
  have res: "group_results_by_video rs = Inr gs"
    unfolding gs_def gs1_def G_def ids_def by (rule group_results_numeric [OF assms])
  have seg: "mset (segments g) = mset (matches_of k rs) \<and>
        sorted_wrt (\<lambda>a b. similarity_or_zero b \<le> similarity_or_zero a) (segments g) \<and>
        (\<forall>c. filter (\<lambda>r. similarity_or_zero r = c) (segments g) =
             filter (\<lambda>r. similarity_or_zero r = c) (matches_of k rs))"
    if "(k, g) \<in> set gs" for k g
    unfolding group_numeric_member [OF assms res that]
    by (simp add: mset_sort_desc sorted_sort_desc sort_desc_stable)
  have across: "sorted_wrt (\<lambda>a b. top_similarity (snd b) \<le> top_similarity (snd a)) gs"
    unfolding gs_def by (rule sorted_sort_desc)
  have set_gs: "set gs = (\<lambda>v. (v, G v)) ` set ids"
    by (simp add: gs_def gs1_def set_sort_desc)
  have ties: "map fst (filter (\<lambda>kg. top_similarity (snd kg) = c) gs) =
          filter (\<lambda>v. \<exists>g. (v, g) \<in> set gs \<and> top_similarity g = c) ids" for c
  proof -
    have "filter (\<lambda>kg. top_similarity (snd kg) = c) gs = filter (\<lambda>kg. top_similarity (snd kg) = c) gs1"
      unfolding gs_def by (rule sort_desc_stable)
    then have "map fst (filter (\<lambda>kg. top_similarity (snd kg) = c) gs) =
        filter (\<lambda>v. top_similarity (G v) = c) ids"
      by (simp add: gs1_def filter_map comp_def)
    also have "\<dots> = filter (\<lambda>v. \<exists>g. (v, g) \<in> set gs \<and> top_similarity g = c) ids"
      by (rule filter_cong) (auto simp: set_gs)
    finally show ?thesis .
  qed
  have keys: "mset (map fst gs) = mset (first_seen (map video_id rs))"
    by (rule group_keys [OF res])
  from res keys seg across ties show ?thesis unfolding ids_def by blast
qed

theorem C2_ordering_witness:
  "numeric_similarities example_rows \<and>
   (\<exists>gs. group_results_by_video example_rows = Inr gs \<and>
     mset (map fst gs) = mset (first_seen (map video_id example_rows)) \<and>
     (\<forall>(k, g)\<in>set gs.
        mset (segments g) = mset (matches_of k example_rows) \<and>
        sorted_wrt (\<lambda>a b. similarity_or_zero b \<le> similarity_or_zero a) (segments g) \<and>
        (\<forall>c. filter (\<lambda>r. similarity_or_zero r = c) (segments g) =
             filter (\<lambda>r. similarity_or_zero r = c) (matches_of k example_rows))) \<and>
     sorted_wrt (\<lambda>a b. top_similarity (snd b) \<le> top_similarity (snd a)) gs \<and>
     (\<forall>c. map fst (filter (\<lambda>kg. top_similarity (snd kg) = c) gs) =
          filter (\<lambda>v. \<exists>g. (v, g) \<in> set gs \<and> top_similarity g = c)
            (first_seen (map video_id example_rows))))"
proof
  show h: "numeric_similarities example_rows"
    by (simp add: numeric_similarities_def example_rows_def row_def)
  show "\<exists>gs. group_results_by_video example_rows = Inr gs \<and>
     mset (map fst gs) = mset (first_seen (map video_id example_rows)) \<and>
     (\<forall>(k, g)\<in>set gs.
        mset (segments g) = mset (matches_of k example_rows) \<and>
        sorted_wrt (\<lambda>a b. similarity_or_zero b \<le> similarity_or_zero a) (segments g) \<and>
        (\<forall>c. filter (\<lambda>r. similarity_or_zero r = c) (segments g) =
             filter (\<lambda>r. similarity_or_zero r = c) (matches_of k example_rows))) \<and>
     sorted_wrt (\<lambda>a b. top_similarity (snd b) \<le> top_similarity (snd a)) gs \<and>
     (\<forall>c. map fst (filter (\<lambda>kg. top_similarity (snd kg) = c) gs) =
          filter (\<lambda>v. \<exists>g. (v, g) \<in> set gs \<and> top_similarity g = c)
            (first_seen (map video_id example_rows)))"
    by (rule C2_ordering [OF h])
qed

section \<open>Grouping again\<close>

lemma first_seen_not_mem: "x \<notin> set xs \<Longrightarrow> filter (\<lambda>y. y \<noteq> x) (first_seen xs) = first_seen xs"
  by (simp add: filter_id_conv set_first_seen) blast

lemma filter_first_seen: "filter P (first_seen xs) = first_seen (filter P xs)"
proof (induction xs)
  case Nil
  show ?case by simp
next
  case (Cons x xs)
  show ?case
  proof (cases "P x")
    case True
    have "filter P (filter (\<lambda>y. y \<noteq> x) (first_seen xs)) =
          filter (\<lambda>y. y \<noteq> x) (filter P (first_seen xs))"
      by (simp add: conj_commute)
    with True Cons.IH show ?thesis by simp
  next
    case False
    then have "x \<notin> set (filter P xs)" by simp
    from first_seen_not_mem [OF this] have "filter (\<lambda>y. y \<noteq> x) (first_seen (filter P xs)) =
      first_seen (filter P xs)" .
    moreover have "filter P (filter (\<lambda>y. y \<noteq> x) (first_seen xs)) =
          filter (\<lambda>y. y \<noteq> x) (filter P (first_seen xs))"
      by (simp add: conj_commute)
    ultimately show ?thesis using False Cons.IH by simp
  qed
qed

lemma first_seen_block:
  "xs \<noteq> [] \<Longrightarrow> \<forall>x\<in>set xs. x = k \<Longrightarrow> k \<notin> set ys \<Longrightarrow> first_seen (xs @ ys) = k # first_seen ys"
proof (induction xs)
  case Nil
  then show ?case by simp
next
  case (Cons x xs)
  then have x: "x = k" by simp
  from Cons.prems have "\<forall>y\<in>set xs. y = k" "\<forall>y\<in>set ys. y \<noteq> k" by auto
  then have "filter (\<lambda>y. y \<noteq> k) xs = []" "filter (\<lambda>y. y \<noteq> k) ys = ys"
    by (simp_all add: filter_id_conv filter_empty_conv)
  then have "filter (\<lambda>y. y \<noteq> k) (xs @ ys) = ys" by simp
  then have "filter (\<lambda>y. y \<noteq> k) (first_seen (xs @ ys)) = first_seen ys"
    by (simp only: filter_first_seen)
  with x show ?case by simp
qed

lemma video_id_flatten:
  "own_segments gs \<Longrightarrow> video_id ` set (flatten gs) = fst ` set gs"
proof (induction gs)
  case Nil
  show ?case by (simp add: flatten_def)
next
  case (Cons kg gs)
  from Cons.prems have o: "own_segments gs" by (simp add: own_segments_def)
  from Cons.prems have "segments (snd kg) \<noteq> []" "\<forall>r\<in>set (segments (snd kg)). video_id r = fst kg"
    by (simp_all add: own_segments_def)
  then have "video_id ` set (segments (snd kg)) = {fst kg}"
    by (cases "segments (snd kg)") auto
  moreover have "flatten (kg # gs) = segments (snd kg) @ flatten gs" by (simp add: flatten_def)
  ultimately show ?case using Cons.IH [OF o] by (simp add: image_Un)
qed

lemma first_seen_flatten:
  "distinct (map fst gs) \<Longrightarrow> own_segments gs \<Longrightarrow>
   first_seen (map video_id (flatten gs)) = map fst gs"
proof (induction gs)
  case Nil
  show ?case by (simp add: flatten_def)
next
  case (Cons kg gs)
  from Cons.prems(2) have o: "own_segments gs" by (simp add: own_segments_def)
  from Cons.prems(2) have ne: "map video_id (segments (snd kg)) \<noteq> []"
    and all: "\<forall>x\<in>set (map video_id (segments (snd kg))). x = fst kg"
    by (auto simp: own_segments_def)
  from Cons.prems(1) have "fst kg \<notin> fst ` set gs" by simp
  then have nm: "fst kg \<notin> set (map video_id (flatten gs))"
    using video_id_flatten [OF o] by simp
  have "flatten (kg # gs) = segments (snd kg) @ flatten gs" by (simp add: flatten_def)
  then have "first_seen (map video_id (flatten (kg # gs))) =
      first_seen (map video_id (segments (snd kg)) @ map video_id (flatten gs))" by simp
  also have "\<dots> = fst kg # first_seen (map video_id (flatten gs))"
    by (rule first_seen_block [OF ne all nm])
  also have "\<dots> = fst kg # map fst gs" using Cons.IH Cons.prems(1) o by simp
  finally show ?case by simp
qed

lemma matches_of_flatten_other:
  "own_segments gs \<Longrightarrow> k \<notin> fst ` set gs \<Longrightarrow> matches_of k (flatten gs) = []"
  using video_id_flatten [of gs] matches_of_empty [of k "flatten gs"] by simp

lemma matches_of_flatten:
  "distinct (map fst gs) \<Longrightarrow> own_segments gs \<Longrightarrow> (k, g) \<in> set gs \<Longrightarrow>
   matches_of k (flatten gs) = segments g"
proof (induction gs)
  case Nil
  then show ?case by simp
next
  case (Cons kg gs)
  from Cons.prems(2) have o: "own_segments gs" by (simp add: own_segments_def)
  have fl: "matches_of k (flatten (kg # gs)) =
      matches_of k (segments (snd kg)) @ matches_of k (flatten gs)"
    by (simp add: flatten_def matches_of_def)
  show ?case
  proof (cases "kg = (k, g)")
    case True
    with Cons.prems(1) have "k \<notin> fst ` set gs" by simp
    from matches_of_flatten_other [OF o this] have "matches_of k (flatten gs) = []" .
    moreover from True Cons.prems(2) have "matches_of k (segments g) = segments g"
      by (simp add: own_segments_def matches_of_def filter_id_conv)
    ultimately show ?thesis using fl True by simp
  next
    case False
    with Cons.prems(3) have m: "(k, g) \<in> set gs" by simp
    then have "k \<in> fst ` set gs" by (rule image_eqI [rotated]) simp
    with Cons.prems(1) have "fst kg \<noteq> k" by auto
    with Cons.prems(2) have "matches_of k (segments (snd kg)) = []"
      by (auto simp: own_segments_def matches_of_def filter_empty_conv)
    with fl Cons.IH [OF _ o m] Cons.prems(1) show ?thesis by simp
  qed
qed

lemma same_metadataD:
  "same_metadata rs \<Longrightarrow> r \<in> set rs \<Longrightarrow> r' \<in> set rs \<Longrightarrow> video_id r = video_id r' \<Longrightarrow>
   video_info (new_group r) = video_info (new_group r')"
  unfolding same_metadata_def list_all_iff by blast

lemma matches_of_subset: "r \<in> set (matches_of k rs) \<Longrightarrow> r \<in> set rs \<and> video_id r = k"
  by (simp add: matches_of_def)

lemma group_own_segments:
  assumes "group_results_by_video rs = Inr gs"
  shows "own_segments gs"
  unfolding own_segments_def
proof (intro ballI conjI)
  fix kg assume m: "kg \<in> set gs"
  then have m': "(fst kg, snd kg) \<in> set gs" by simp
  show "segments (snd kg) \<noteq> []" by (rule group_segments_nonempty [OF assms m'])
  fix r assume "r \<in> set (segments (snd kg))"
  then have "r \<in> set (matches_of (fst kg) rs)"
    using mset_eq_setD [OF group_segments_mset [OF assms m']] by simp
  then show "video_id r = fst kg" by (simp add: matches_of_def)
qed

lemma group_of_flatten:
  assumes s: "same_metadata rs" and g: "group_results_by_video rs = Inr gs"
    and m: "(k, g0) \<in> set gs"
  shows "group_of (flatten gs) k = g0"
proof -
  have seg: "matches_of k (flatten gs) = segments g0"
    by (rule matches_of_flatten [OF group_keys_distinct [OF g] group_own_segments [OF g] m])
  from group_segments_nonempty [OF g m] obtain s0 rest where c: "segments g0 = s0 # rest"
    by (cases "segments g0") auto
  then have "s0 \<in> set (segments g0)" by simp
  then have "s0 \<in> set (matches_of k rs)"
    using mset_eq_setD [OF group_segments_mset [OF g m]] by simp
  from matches_of_subset [OF this] have s0: "s0 \<in> set rs" "video_id s0 = k" by simp_all
  from group_member [OF g m] have k: "k \<in> video_id ` set rs"
    and vi: "video_info g0 = video_info (group_of rs k)" by simp_all
  from k obtain r0 rest0 where c0: "matches_of k rs = r0 # rest0"
    using matches_of_empty [of k rs] by (cases "matches_of k rs") auto
  then have "r0 \<in> set (matches_of k rs)" by simp
  from matches_of_subset [OF this] have r0: "r0 \<in> set rs" "video_id r0 = k" by simp_all
  from same_metadataD [OF s r0(1) s0(1)] r0(2) s0(2)
  have "video_info (new_group r0) = video_info (new_group s0)" by simp
  with vi c0 have "video_info g0 = video_info (new_group s0)" by (simp add: group_of_def)
  with seg c show ?thesis by (simp add: group_of_def)
qed

lemma collect_groups_flatten:
  assumes s: "same_metadata rs" and g: "group_results_by_video rs = Inr gs"
  shows "collect_groups (flatten gs) = gs"
proof -
  have "collect_groups (flatten gs) = map (\<lambda>v. (v, group_of (flatten gs) v)) (map fst gs)"
    by (simp add: collect_groups_eq
          first_seen_flatten [OF group_keys_distinct [OF g] group_own_segments [OF g]])
  also have "\<dots> = map (\<lambda>kg. (fst kg, group_of (flatten gs) (fst kg))) gs"
    by (simp add: comp_def)
  also have "\<dots> = map (\<lambda>kg. kg) gs"
  proof (rule map_cong [OF refl])
    fix kg assume "kg \<in> set gs"
    then have "(fst kg, snd kg) \<in> set gs" by simp
    from group_of_flatten [OF s g this] show "(fst kg, group_of (flatten gs) (fst kg)) = kg"
      by simp
  qed
  finally show ?thesis by simp
qed

lemma group_results_regroup:
  assumes s: "same_metadata rs" and g: "group_results_by_video rs = Inr gs"
  shows "group_results_by_video (flatten gs) = Inr gs"
proof -
  from g obtain gs1 where a: "sort_segments (collect_groups rs) = Inr gs1"
    and b: "py_sorted best_key gs1 = Inr gs"
    unfolding group_results_Inr by blast
  have "list_all (\<lambda>kg. seg_sorted kg kg) gs"
    unfolding list_all_iff
  proof
    fix kg assume "kg \<in> set gs"
    then have "(fst kg, snd kg) \<in> set gs" by simp
    from group_member [OF g this]
    have "py_sorted (\<lambda>x. Inr (similarity_key x)) (matches_of (fst kg) rs) = Inr (segments (snd kg))"
      by simp
    from py_sorted_idem [OF this] show "seg_sorted kg kg" by (simp add: seg_sorted_def)
  qed
  then have "sort_segments gs = Inr gs" by (rule sort_segments_fixed)
  then have "sort_segments (collect_groups (flatten gs)) = Inr gs"
    by (simp add: collect_groups_flatten [OF s g])
  moreover have "py_sorted best_key gs = Inr gs" by (rule py_sorted_idem [OF b])
  ultimately show ?thesis unfolding group_results_Inr by blast
qed

lemmas group_eval = group_results_by_video_def collect_groups_def add_result_def append_segment_def
  new_group_def py_sorted_def sort_keyed_def best_key_def similarity_key_def py_or_def
  dict_of_items_def dict_set_def row_def flatten_def Let_def

text \<open>
  Claim C8, amended: when the matches of the same video carry the same video-level cells,
  grouping the flattened result of a grouping gives that result again: same groups in the
  same order, same segments in the same order, same \<open>video_info\<close>.
\<close>

theorem C8_regrouping_is_identity:
  "same_metadata rs \<Longrightarrow> group_results_by_video rs = Inr gs \<Longrightarrow>
   group_results_by_video (flatten gs) = Inr gs"
  by (rule group_results_regroup)

theorem C8_regrouping_is_identity_witness:
  "same_metadata example_rows \<and>
   (\<exists>gs. group_results_by_video example_rows = Inr gs \<and>
         group_results_by_video (flatten gs) = Inr gs)"
proof -
  have s: "same_metadata example_rows"
    by (simp add: same_metadata_def example_rows_def row_def new_group_def)
  have h: "numeric_similarities example_rows"
    by (simp add: numeric_similarities_def example_rows_def row_def)
  from group_results_total [OF h] obtain gs where
    g: "group_results_by_video example_rows = Inr gs" by blast
  from C8_regrouping_is_identity [OF s g] s g show ?thesis by blast
qed

text \<open>
  Claim C8, as stated, holds for every input. Two matches of one video with different
  titles refute it: the group keeps the title of the first match, the sort puts the second
  match first, and grouping the flattened result takes the title from that one.
\<close>

theorem C8_counterexample:
  "group_results_by_video conflicting_rows = Inr conflicting_groups \<and>
   group_results_by_video (flatten conflicting_groups) \<noteq> Inr conflicting_groups"
  by (simp add: conflicting_rows_def conflicting_groups_def group_eval)

text \<open>
  The \<open>video_info\<close> of every group has the nine keys below and no other, so the language
  the dashboard shows is \<open>Unknown\<close> for every group of every result.
\<close>

lemma group_video_info_keys:
  assumes "group_results_by_video rs = Inr gs" "(k, g) \<in> set gs"
  shows "map fst (video_info g) =
     [''video_id'', ''title'', ''description'', ''published_at'', ''duration'', ''view_count'',
      ''like_count'', ''comment_count'', ''favorite_count'']"
proof -
  from group_member [OF assms] have k: "k \<in> video_id ` set rs"
    and vi: "video_info g = video_info (group_of rs k)" by simp_all
  from k obtain r0 rest0 where "matches_of k rs = r0 # rest0"
    using matches_of_empty [of k rs] by (cases "matches_of k rs") auto
  with vi show ?thesis by (simp add: group_of_def new_group_def)
qed

lemma shown_language_unknown:
  assumes "group_results_by_video rs = Inr gs" "(k, g) \<in> set gs"
  shows "shown_language g = PStr ''Unknown''"
proof -
  have "''transcription_language'' \<notin> set (map fst (video_info g))"
    unfolding group_video_info_keys [OF assms] by simp
  then have "map_of (video_info g) ''transcription_language'' = None"
    by (simp add: map_of_eq_None_iff)
  then show ?thesis by (simp add: shown_language_def dict_get_def py_or_def)
qed

text \<open>
  Claim C5. Every group should carry the transcription language among its video-level
  cells. The match below has the language \<open>en\<close>; the \<open>video_info\<close> of its group has no
  key \<open>transcription_language\<close>, and the dashboard, which reads the language from
  \<open>video_info\<close>, shows \<open>Unknown\<close>.
\<close>

theorem C5_language_missing:
  "transcription_language single_row = PStr ''en'' \<and>
   group_results_by_video [single_row] = Inr [(PStr ''v1'', single_group)] \<and>
   map_of (video_info single_group) ''transcription_language'' = None \<and>
   shown_language single_group = PStr ''Unknown''"
  by (simp add: single_row_def single_group_def group_eval shown_language_def dict_get_def)

section \<open>The scenarios of the specification\<close>

text \<open>
  Scenarios A, B and C: the re-check at threshold 0.5 keeps 0.9 and 0.7 and drops 0.4, and
  the one group lists them in that order; the video with top similarity 0.8 comes before the
  one with 0.6; a match without similarity is not accepted, and the result is empty.
\<close>

lemma scenario_A:
  "search_similar_segments
     [row (PStr ''v1'') PNone PNone (PNum (9 / 10)),
      row (PStr ''v1'') PNone PNone (PNum (4 / 10)),
      row (PStr ''v1'') PNone PNone (PNum (7 / 10))] (1 / 2) =
   Inr [row (PStr ''v1'') PNone PNone (PNum (9 / 10)),
        row (PStr ''v1'') PNone PNone (PNum (7 / 10))] \<and>
   (\<exists>g. group_results_by_video
         [row (PStr ''v1'') PNone PNone (PNum (9 / 10)),
          row (PStr ''v1'') PNone PNone (PNum (7 / 10))] = Inr [(PStr ''v1'', g)] \<and>
        map similarity (segments g) = [PNum (9 / 10), PNum (7 / 10)])"
  by (simp add: search_similar_segments_def passes_threshold_def group_eval)

lemma scenario_B:
  "\<exists>gs. group_results_by_video
         [row (PStr ''v1'') PNone PNone (PNum (6 / 10)),
          row (PStr ''v2'') PNone PNone (PNum (8 / 10))] = Inr gs \<and>
        map fst gs = [PStr ''v2'', PStr ''v1'']"
  by (simp add: group_eval)

lemma scenario_C:
  "search_similar_segments [row (PStr ''v1'') PNone PNone PNone] (4 / 10) = Inr []"
  by (simp add: search_similar_segments_def passes_threshold_def row_def)

end
